theory Spec2Isabelle
  imports Main "HOL-Library.Product_Lexorder"
begin

section \<open>Grid model (a\_estrella.py, sim\_core.py)\<close>

text \<open>
  A cell is a pair \<open>(x, y)\<close> of Python integers. The grid is a two-dimensional
  numpy array, modelled as its list of rows: \<open>grid.shape = (alto, ancho)\<close> and
  \<open>grid[y, x]\<close> is row \<open>y\<close>, column \<open>x\<close>. An array without rows has no cell in
  range, whatever its width, so its width is taken as 0.
\<close>

type_synonym celda = "int \<times> int"
type_synonym grid = "int list list"

definition LIBRE :: int where
  "LIBRE = 0"

definition ESTACION :: int where
  "ESTACION = 2"

definition alto :: "grid \<Rightarrow> int" where
  "alto g = int (length g)"

definition ancho :: "grid \<Rightarrow> int" where
  "ancho g = (case g of [] \<Rightarrow> 0 | fila # _ \<Rightarrow> int (length fila))"

definition en_rango :: "grid \<Rightarrow> int \<Rightarrow> int \<Rightarrow> bool" where
  "en_rango g x y \<longleftrightarrow> 0 \<le> x \<and> x < ancho g \<and> 0 \<le> y \<and> y < alto g"

text \<open>\<open>grid[y, x]\<close>; the source reads it only after \<open>en_rango\<close> has held.\<close>

definition valor :: "grid \<Rightarrow> int \<Rightarrow> int \<Rightarrow> int" where
  "valor g x y = g ! nat y ! nat x"

definition transitable :: "grid \<Rightarrow> int \<Rightarrow> int \<Rightarrow> bool" where
  "transitable g x y \<longleftrightarrow> valor g x y = LIBRE \<or> valor g x y = ESTACION"

section \<open>A* planner (a\_estrella.py)\<close>

definition heuristica :: "celda \<Rightarrow> int \<Rightarrow> int \<Rightarrow> int" where
  "heuristica meta x y = \<bar>x - fst meta\<bar> + \<bar>y - snd meta\<bar>"

text \<open>
  The open list holds tuples \<open>(f, g, (x, y))\<close>, compared lexicographically as Python
  compares tuples. \<open>heapq.heappop\<close> returns the least tuple and leaves the others;
  equal tuples are the same value, so the heap is modelled by the list of its elements.
\<close>

type_synonym entrada = "int \<times> int \<times> celda"

definition tope :: "entrada list \<Rightarrow> entrada" where
  "tope h = Min (set h)"

definition resto :: "entrada list \<Rightarrow> entrada list" where
  "resto h = remove1 (tope h) h"

definition heappush :: "entrada list \<Rightarrow> entrada \<Rightarrow> entrada list" where
  "heappush h e = h @ [e]"

record busqueda =
  abiertos :: "entrada list"
  vino_de :: "celda \<rightharpoonup> celda"
  costo_g :: "celda \<rightharpoonup> int"
  cerrados :: "celda set"

definition deltas :: "(int \<times> int) list" where
  "deltas = [(1, 0), (-1, 0), (0, 1), (0, -1)]"

text \<open>The body of the loop over the four neighbours of \<open>actual\<close>.\<close>

definition relajar :: "grid \<Rightarrow> celda \<Rightarrow> int \<Rightarrow> celda \<Rightarrow> int \<times> int \<Rightarrow> busqueda \<Rightarrow> busqueda" where
  "relajar g meta g_actual actual d st =
     (let nx = fst actual + fst d; ny = snd actual + snd d in
      if \<not> en_rango g nx ny \<or> \<not> transitable g nx ny then st
      else
        let nuevo_g = g_actual + 1 in
        if nuevo_g < (case costo_g st (nx, ny) of None \<Rightarrow> 10 ^ 9 | Some c \<Rightarrow> c)
        then st\<lparr>costo_g := (costo_g st)((nx, ny) \<mapsto> nuevo_g),
                vino_de := (vino_de st)((nx, ny) \<mapsto> actual),
                abiertos := heappush (abiertos st) (nuevo_g + heuristica meta nx ny, nuevo_g, (nx, ny))\<rparr>
        else st)"

definition expandir :: "grid \<Rightarrow> celda \<Rightarrow> int \<Rightarrow> celda \<Rightarrow> busqueda \<Rightarrow> busqueda" where
  "expandir g meta g_actual actual st = fold (relajar g meta g_actual actual) deltas st"

text \<open>
  Route reconstruction: \<open>while actual in vino_de\<close>. The loop follows parent links
  and does not return on a cyclic table, so it is a partial function; \<open>None\<close> is
  "does not return".
\<close>

partial_function (option) reconstruir :: "(celda \<rightharpoonup> celda) \<Rightarrow> celda \<Rightarrow> celda list \<Rightarrow> celda list option" where
  "reconstruir vd actual ruta =
     (case vd actual of
        None \<Rightarrow> Some (rev ruta)
      | Some p \<Rightarrow> reconstruir vd p (ruta @ [p]))"

definition celdas_grid :: "grid \<Rightarrow> celda set" where
  "celdas_grid g = {0 ..< ancho g} \<times> {0 ..< alto g}"

definition pendiente_bucle :: "grid \<Rightarrow> busqueda \<Rightarrow> nat" where
  "pendiente_bucle g st =
     card ((celdas_grid g \<union> (snd \<circ> snd) ` set (abiertos st)) - cerrados st)"

text \<open>
  The main loop. The outer option is "returns at all" (\<open>None\<close> only through
  \<open>reconstruir\<close>); the inner one is Python's \<open>Optional[List[Celda]]\<close>.
\<close>

function bucle :: "grid \<Rightarrow> celda \<Rightarrow> busqueda \<Rightarrow> celda list option option" where
  "bucle g meta st =
     (if abiertos st = [] then Some None
      else
        let g_actual = fst (snd (tope (abiertos st)));
            actual = snd (snd (tope (abiertos st)));
            st1 = st\<lparr>abiertos := resto (abiertos st)\<rparr>
        in
          if actual \<in> cerrados st1 then bucle g meta st1
          else
            let st2 = st1\<lparr>cerrados := insert actual (cerrados st1)\<rparr> in
            if actual = meta then map_option Some (reconstruir (vino_de st2) actual [actual])
            else bucle g meta (expandir g meta g_actual actual st2))"
  by pat_completeness auto

subsection \<open>Termination of the main loop\<close>


lemma finite_celdas_grid: "finite (celdas_grid g)"
  by (simp add: celdas_grid_def)

lemma en_rango_celdas_grid: "en_rango g x y \<longleftrightarrow> (x, y) \<in> celdas_grid g"
  by (auto simp: en_rango_def celdas_grid_def)

lemma tope_in: "h \<noteq> [] \<Longrightarrow> tope h \<in> set h"
  unfolding tope_def by (rule Min_in) auto

lemma tope_le: "e \<in> set h \<Longrightarrow> tope h \<le> e"
  unfolding tope_def by (rule Min_le) auto

lemma length_resto: "h \<noteq> [] \<Longrightarrow> length (resto h) < length h"
  by (simp add: resto_def length_remove1 tope_in)

lemma set_resto: "set (resto h) \<subseteq> set h"
  by (simp add: resto_def set_remove1_subset)

lemma cerrados_relajar: "cerrados (relajar g meta ga a d st) = cerrados st"
  by (simp add: relajar_def Let_def)

lemma celdas_relajar:
  "(snd \<circ> snd) ` set (abiertos (relajar g meta ga a d st))
     \<subseteq> celdas_grid g \<union> (snd \<circ> snd) ` set (abiertos st)"
  by (auto simp: relajar_def Let_def heappush_def en_rango_celdas_grid)

lemma cerrados_fold_relajar: "cerrados (fold (relajar g meta ga a) ds st) = cerrados st"
  by (induction ds arbitrary: st) (simp_all add: cerrados_relajar)

lemma celdas_fold_relajar:
  "(snd \<circ> snd) ` set (abiertos (fold (relajar g meta ga a) ds st))
     \<subseteq> celdas_grid g \<union> (snd \<circ> snd) ` set (abiertos st)"
proof (induction ds arbitrary: st)
  case Nil
  then show ?case by simp
next
  case (Cons d ds)
  have "(snd \<circ> snd) ` set (abiertos (fold (relajar g meta ga a) ds (relajar g meta ga a d st)))
        \<subseteq> celdas_grid g \<union> (snd \<circ> snd) ` set (abiertos (relajar g meta ga a d st))"
    by (rule Cons.IH)
  also have "\<dots> \<subseteq> celdas_grid g \<union> (snd \<circ> snd) ` set (abiertos st)"
    using celdas_relajar [of g meta ga a d st] by blast
  finally show ?case by simp
qed

lemma pendiente_resto:
  "pendiente_bucle g (st\<lparr>abiertos := resto (abiertos st)\<rparr>) \<le> pendiente_bucle g st"
  unfolding pendiente_bucle_def
  by (rule card_mono) (use set_resto [of "abiertos st"] in \<open>auto simp: finite_celdas_grid\<close>)

lemma pendiente_expandir:
  assumes "abiertos st \<noteq> []" and "snd (snd (tope (abiertos st))) \<notin> cerrados st"
  shows "pendiente_bucle g (expandir g meta ga (snd (snd (tope (abiertos st))))
           (st\<lparr>abiertos := resto (abiertos st),
               cerrados := insert (snd (snd (tope (abiertos st)))) (cerrados st)\<rparr>))
         < pendiente_bucle g st"
proof -
  let ?a = "snd (snd (tope (abiertos st)))"
  let ?st2 = "st\<lparr>abiertos := resto (abiertos st), cerrados := insert ?a (cerrados st)\<rparr>"
  let ?st3 = "expandir g meta ga ?a ?st2"
  have c: "cerrados ?st3 = insert ?a (cerrados st)"
    by (simp add: expandir_def cerrados_fold_relajar)
  have "(snd \<circ> snd) ` set (abiertos ?st3) \<subseteq> celdas_grid g \<union> (snd \<circ> snd) ` set (abiertos ?st2)"
    unfolding expandir_def by (rule celdas_fold_relajar)
  also have "\<dots> \<subseteq> celdas_grid g \<union> (snd \<circ> snd) ` set (abiertos st)"
    using set_resto [of "abiertos st"] by auto
  finally have h: "(snd \<circ> snd) ` set (abiertos ?st3) \<subseteq> celdas_grid g \<union> (snd \<circ> snd) ` set (abiertos st)" .
  have a_in: "?a \<in> (snd \<circ> snd) ` set (abiertos st)"
    using tope_in [OF assms(1)] by force
  have "(celdas_grid g \<union> (snd \<circ> snd) ` set (abiertos ?st3)) - cerrados ?st3
        \<subset> (celdas_grid g \<union> (snd \<circ> snd) ` set (abiertos st)) - cerrados st"
    using h a_in assms(2) unfolding c by blast
  then show ?thesis
    unfolding pendiente_bucle_def
    by (intro psubset_card_mono) (auto simp: finite_celdas_grid)
qed

termination bucle
proof (relation "measures [\<lambda>(g, meta, st). pendiente_bucle g st, \<lambda>(g, meta, st). length (abiertos st)]", goal_cases)
  case 1
  show ?case by simp
next
  case (2 g meta st ga a st1)
  then show ?case
    using pendiente_resto [of g st] length_resto [of "abiertos st"] by auto
next
  case (3 g meta st ga a st1 st2)
  then show ?case
    using pendiente_expandir [of st g meta ga] by simp
qed

declare reconstruir.simps [code]

text \<open>The planner itself: the quick validation of both endpoints, then the loop.\<close>

definition a_estrella :: "grid \<Rightarrow> celda \<Rightarrow> celda \<Rightarrow> celda list option option" where
  "a_estrella g inicio meta =
     (let ix = fst inicio; iy = snd inicio; mx = fst meta; my = snd meta in
      if \<not> en_rango g ix iy \<or> \<not> en_rango g mx my \<or> \<not> transitable g ix iy \<or> \<not> transitable g mx my
      then Some None
      else bucle g (mx, my)
             \<lparr>abiertos = heappush [] (heuristica meta ix iy, 0, (ix, iy)),
              vino_de = Map.empty,
              costo_g = [(ix, iy) \<mapsto> 0],
              cerrados = {}\<rparr>)"

subsection \<open>Paths on the grid\<close>

definition libre :: "grid \<Rightarrow> celda \<Rightarrow> bool" where
  "libre g c \<longleftrightarrow> en_rango g (fst c) (snd c) \<and> transitable g (fst c) (snd c)"

definition adyacente :: "celda \<Rightarrow> celda \<Rightarrow> bool" where
  "adyacente a b \<longleftrightarrow> \<bar>fst a - fst b\<bar> + \<bar>snd a - snd b\<bar> = 1"

text \<open>A path: a non-empty list of in-bounds transitable cells, each a 4-neighbour of the one before.\<close>

fun camino :: "grid \<Rightarrow> celda list \<Rightarrow> bool" where
  "camino g [] = False"
| "camino g [c] = libre g c"
| "camino g (a # b # cs) = (libre g a \<and> adyacente a b \<and> camino g (b # cs))"

definition une :: "grid \<Rightarrow> celda \<Rightarrow> celda \<Rightarrow> celda list \<Rightarrow> bool" where
  "une g s t p \<longleftrightarrow> camino g p \<and> hd p = s \<and> last p = t"

definition alcanza :: "grid \<Rightarrow> celda \<Rightarrow> celda \<Rightarrow> nat \<Rightarrow> bool" where
  "alcanza g s c n \<longleftrightarrow> (\<exists>p. une g s c p \<and> length p = Suc n)"

subsection \<open>Basic facts about paths\<close>


lemma camino_no_vacio: "camino g p \<Longrightarrow> p \<noteq> []"
  by (cases p) simp_all

lemma camino_snoc:
  "camino g (p @ [c]) \<longleftrightarrow> libre g c \<and> (p = [] \<or> (camino g p \<and> adyacente (last p) c))"
  by (induction g p rule: camino.induct) auto

lemma camino_libre: "camino g p \<Longrightarrow> c \<in> set p \<Longrightarrow> libre g c"
  by (induction g p rule: camino.induct) auto

lemma alcanza_0: "libre g s \<Longrightarrow> alcanza g s s 0"
  unfolding alcanza_def une_def by (rule exI [of _ "[s]"]) simp

lemma alcanza_0_iff: "alcanza g s c 0 \<longleftrightarrow> c = s \<and> libre g s"
proof
  assume "alcanza g s c 0"
  then obtain p where p: "camino g p" "hd p = s" "last p = c" "length p = Suc 0"
    unfolding alcanza_def une_def by blast
  then obtain a where "p = [a]" by (cases p) auto
  with p show "c = s \<and> libre g s" by simp
next
  assume "c = s \<and> libre g s"
  then show "alcanza g s c 0" by (simp add: alcanza_0)
qed

lemma alcanza_Suc:
  assumes "alcanza g s c n" "adyacente c c'" "libre g c'"
  shows "alcanza g s c' (Suc n)"
proof -
  from assms(1) obtain p where p: "camino g p" "hd p = s" "last p = c" "length p = Suc n"
    unfolding alcanza_def une_def by blast
  then have ne: "p \<noteq> []" by auto
  have "camino g (p @ [c'])"
    using p assms(2,3) by (simp add: camino_snoc)
  moreover have "hd (p @ [c']) = s" using ne p by simp
  ultimately show ?thesis
    unfolding alcanza_def une_def using p by (intro exI [of _ "p @ [c']"]) simp
qed

lemma alcanza_Suc_elim:
  assumes "alcanza g s c (Suc n)"
  shows "\<exists>b. alcanza g s b n \<and> adyacente b c \<and> libre g c"
proof -
  from assms obtain p where p: "camino g p" "hd p = s" "last p = c" "length p = Suc (Suc n)"
    unfolding alcanza_def une_def by blast
  then have "p \<noteq> []" by auto
  then obtain q x where q: "p = q @ [x]" by (metis rev_exhaust)
  with p have x: "x = c" and lq: "length q = Suc n" by auto
  then have qne: "q \<noteq> []" by auto
  from p(1) have "libre g c" "camino g q" "adyacente (last q) c"
    using qne unfolding q x by (auto simp: camino_snoc)
  moreover have "hd q = s" using p(2) qne q by simp
  ultimately show ?thesis
    unfolding alcanza_def une_def using lq by blast
qed

lemma alcanza_libre: "alcanza g s c n \<Longrightarrow> libre g c"
  by (cases n) (auto simp: alcanza_0_iff dest: alcanza_Suc_elim)

lemma heuristica_adyacente:
  "adyacente a b \<Longrightarrow> heuristica t (fst a) (snd a) \<le> heuristica t (fst b) (snd b) + 1"
  unfolding adyacente_def heuristica_def by linarith

lemma adyacente_deltas:
  "adyacente a b \<longleftrightarrow> (\<exists>d \<in> set deltas. b = (fst a + fst d, snd a + snd d))"
proof -
  obtain ax ay bx by' where [simp]: "a = (ax, ay)" "b = (bx, by')"
    by (cases a, cases b) auto
  show ?thesis
    unfolding adyacente_def deltas_def by (auto simp: abs_if split: if_splits)
qed

lemma adyacente_distinto: "adyacente a b \<Longrightarrow> a \<noteq> b"
  by (auto simp: adyacente_def)

subsection \<open>The loop invariant\<close>


definition h_de :: "celda \<Rightarrow> celda \<Rightarrow> int" where
  "h_de t c = heuristica t (fst c) (snd c)"

definition inv_heap :: "celda \<Rightarrow> busqueda \<Rightarrow> bool" where
  "inv_heap t st \<longleftrightarrow>
     (\<forall>f ga c. (f, ga, c) \<in> set (abiertos st) \<longrightarrow>
        f = ga + h_de t c \<and> ga < 10 ^ 9 \<and> (\<exists>gc. costo_g st c = Some gc \<and> gc \<le> ga))"

definition inv_costo :: "grid \<Rightarrow> celda \<Rightarrow> busqueda \<Rightarrow> bool" where
  "inv_costo g s st \<longleftrightarrow>
     (\<forall>c gc. costo_g st c = Some gc \<longrightarrow>
        0 \<le> gc \<and> gc < 10 ^ 9 \<and> libre g c \<and>
        ((c = s \<and> gc = 0 \<and> vino_de st c = None) \<or>
         (\<exists>p. vino_de st c = Some p \<and> p \<in> cerrados st \<and> costo_g st p = Some (gc - 1) \<and> adyacente p c)))"

definition inv_cerrados :: "grid \<Rightarrow> celda \<Rightarrow> busqueda \<Rightarrow> bool" where
  "inv_cerrados g s st \<longleftrightarrow>
     (\<forall>c \<in> cerrados st. \<exists>gc. costo_g st c = Some gc \<and> (\<forall>n. alcanza g s c n \<longrightarrow> gc \<le> int n))"

definition inv_abiertos :: "celda \<Rightarrow> busqueda \<Rightarrow> bool" where
  "inv_abiertos t st \<longleftrightarrow>
     (\<forall>c gc. costo_g st c = Some gc \<longrightarrow> c \<notin> cerrados st \<longrightarrow>
        (gc + h_de t c, gc, c) \<in> set (abiertos st))"

definition inv_frontera :: "grid \<Rightarrow> (celda \<times> celda) set \<Rightarrow> busqueda \<Rightarrow> bool" where
  "inv_frontera g P st \<longleftrightarrow>
     (\<forall>x y gx. x \<in> cerrados st \<longrightarrow> (x, y) \<notin> P \<longrightarrow> adyacente x y \<longrightarrow> libre g y \<longrightarrow>
        costo_g st x = Some gx \<longrightarrow> gx + 1 < 10 ^ 9 \<longrightarrow>
        (\<exists>gy. costo_g st y = Some gy \<and> gy \<le> gx + 1))"

definition inv_bucle :: "grid \<Rightarrow> celda \<Rightarrow> celda \<Rightarrow> (celda \<times> celda) set \<Rightarrow> busqueda \<Rightarrow> bool" where
  "inv_bucle g s t P st \<longleftrightarrow>
     inv_heap t st \<and> inv_costo g s st \<and> inv_cerrados g s st \<and> inv_abiertos t st \<and>
     inv_frontera g P st \<and> t \<notin> cerrados st \<and> costo_g st s = Some 0"

lemma h_de_adyacente: "adyacente a b \<Longrightarrow> h_de t a \<le> h_de t b + 1"
  unfolding h_de_def by (rule heuristica_adyacente)

lemma costo_alcanza:
  assumes "inv_costo g s st"
  shows "costo_g st c = Some gc \<Longrightarrow> nat gc = n \<Longrightarrow> alcanza g s c n"
proof (induction n arbitrary: c gc)
  case 0
  from assms 0(1) have "0 \<le> gc" "libre g c"
    and d: "(c = s \<and> gc = 0 \<and> vino_de st c = None) \<or>
       (\<exists>p. vino_de st c = Some p \<and> p \<in> cerrados st \<and> costo_g st p = Some (gc - 1) \<and> adyacente p c)"
    unfolding inv_costo_def by blast+
  with 0(2) have g0: "gc = 0" by simp
  from d show ?case
  proof
    assume "c = s \<and> gc = 0 \<and> vino_de st c = None"
    with \<open>libre g c\<close> show ?thesis by (simp add: alcanza_0)
  next
    assume "\<exists>p. vino_de st c = Some p \<and> p \<in> cerrados st \<and> costo_g st p = Some (gc - 1) \<and> adyacente p c"
    then obtain p where "costo_g st p = Some (gc - 1)" by blast
    with assms have "0 \<le> gc - 1" unfolding inv_costo_def by blast
    with g0 show ?thesis by simp
  qed
next
  case (Suc n)
  from assms Suc(2) have "0 \<le> gc" and lc: "libre g c"
    and d: "(c = s \<and> gc = 0 \<and> vino_de st c = None) \<or>
       (\<exists>p. vino_de st c = Some p \<and> p \<in> cerrados st \<and> costo_g st p = Some (gc - 1) \<and> adyacente p c)"
    unfolding inv_costo_def by blast+
  from Suc(3) have "gc \<noteq> 0" by auto
  with d obtain p where p: "costo_g st p = Some (gc - 1)" "adyacente p c" by blast
  have "nat (gc - 1) = n" using Suc(3) by simp
  with p Suc.IH have "alcanza g s p n" by blast
  with p lc show ?case by (blast intro: alcanza_Suc)
qed

lemma frontera_abierta:
  assumes "inv_cerrados g s st" "inv_abiertos t st" "inv_frontera g {} st" "costo_g st s = Some 0"
  shows "alcanza g s c n \<Longrightarrow> int n < 10 ^ 9 \<Longrightarrow>
         (c \<in> cerrados st \<and> (\<exists>gc. costo_g st c = Some gc \<and> gc \<le> int n)) \<or>
         (\<exists>gy y. (gy + h_de t y, gy, y) \<in> set (abiertos st) \<and> gy + h_de t y \<le> int n + h_de t c)"
proof (induction n arbitrary: c)
  case 0
  then have [simp]: "c = s" by (simp add: alcanza_0_iff)
  show ?case
  proof (cases "s \<in> cerrados st")
    case True
    with assms(4) show ?thesis by simp
  next
    case False
    with assms(2,4) have "(0 + h_de t s, 0, s) \<in> set (abiertos st)"
      unfolding inv_abiertos_def by blast
    then have "(0 + h_de t s, 0, s) \<in> set (abiertos st) \<and> 0 + h_de t s \<le> int 0 + h_de t s"
      by simp
    then show ?thesis unfolding \<open>c = s\<close> by blast
  qed
next
  case (Suc n)
  from Suc.prems(1) obtain b where b: "alcanza g s b n" "adyacente b c" "libre g c"
    using alcanza_Suc_elim by blast
  from Suc.prems(2) have "int n < 10 ^ 9" by simp
  from Suc.IH [OF b(1) this] show ?case
  proof
    assume "b \<in> cerrados st \<and> (\<exists>gb. costo_g st b = Some gb \<and> gb \<le> int n)"
    then obtain gb where gb: "b \<in> cerrados st" "costo_g st b = Some gb" "gb \<le> int n" by blast
    with Suc.prems(2) have "gb + 1 < 10 ^ 9" by simp
    with assms(3) gb b obtain gy where gy: "costo_g st c = Some gy" "gy \<le> gb + 1"
      unfolding inv_frontera_def by blast
    show ?thesis
    proof (cases "c \<in> cerrados st")
      case True
      with gy gb show ?thesis by auto
    next
      case False
      with assms(2) gy have "(gy + h_de t c, gy, c) \<in> set (abiertos st)"
        unfolding inv_abiertos_def by blast
      moreover have "gy + h_de t c \<le> int (Suc n) + h_de t c" using gy gb by simp
      ultimately show ?thesis by blast
    qed
  next
    assume "\<exists>gy y. (gy + h_de t y, gy, y) \<in> set (abiertos st) \<and> gy + h_de t y \<le> int n + h_de t b"
    then obtain gy y where y: "(gy + h_de t y, gy, y) \<in> set (abiertos st)"
      "gy + h_de t y \<le> int n + h_de t b" by blast
    from h_de_adyacente [OF b(2), of t] y(2)
    have "gy + h_de t y \<le> int (Suc n) + h_de t c" by simp
    with y(1) show ?thesis by blast
  qed
qed

lemma entrada_le_fst: "(e :: entrada) \<le> e' \<Longrightarrow> fst e \<le> fst e'"
  by (auto simp: less_eq_prod_def)

text \<open>The entry popped for a cell that is not closed carries the length of a shortest path.\<close>

lemma tope_optimo:
  assumes inv: "inv_bucle g s t {} st"
    and ne: "abiertos st \<noteq> []"
    and top: "tope (abiertos st) = (f, ga, u)"
    and nc: "u \<notin> cerrados st"
  shows "costo_g st u = Some ga" and "\<forall>n. alcanza g s u n \<longrightarrow> ga \<le> int n"
proof -
  from inv have ih: "inv_heap t st" and ic: "inv_costo g s st" and ice: "inv_cerrados g s st"
    and ia: "inv_abiertos t st" and ifr: "inv_frontera g {} st" and s0: "costo_g st s = Some 0"
    unfolding inv_bucle_def by blast+
  have mem: "(f, ga, u) \<in> set (abiertos st)"
    using tope_in [OF ne] top by simp
  with ih obtain gc where f: "f = ga + h_de t u" and ga: "ga < 10 ^ 9"
    and gc: "costo_g st u = Some gc" "gc \<le> ga"
    unfolding inv_heap_def by blast
  show opt: "\<forall>n. alcanza g s u n \<longrightarrow> ga \<le> int n"
  proof (intro allI impI, rule ccontr)
    fix n assume a: "alcanza g s u n" and "\<not> ga \<le> int n"
    then have lt: "int n < ga" by simp
    with ga have "int n < 10 ^ 9" by simp
    from frontera_abierta [OF ice ia ifr s0 a this] nc
    obtain gy y where y: "(gy + h_de t y, gy, y) \<in> set (abiertos st)"
      "gy + h_de t y \<le> int n + h_de t u" by blast
    from tope_le [OF y(1)] top have "(f, ga, u) \<le> (gy + h_de t y, gy, y)" by simp
    then have "f \<le> gy + h_de t y" by (auto dest: entrada_le_fst)
    with y(2) f lt show False by simp
  qed
  from ic gc(1) have "0 \<le> gc" unfolding inv_costo_def by blast
  from costo_alcanza [OF ic gc(1) refl] opt have "ga \<le> int (nat gc)" by blast
  with \<open>0 \<le> gc\<close> gc(2) have "gc = ga" by simp
  with gc(1) show "costo_g st u = Some ga" by simp
qed

subsection \<open>Popping the open list\<close>


lemma inv_heapD:
  "inv_heap t st \<Longrightarrow> (f, ga, c) \<in> set (abiertos st) \<Longrightarrow>
     f = ga + h_de t c \<and> ga < 10 ^ 9 \<and> (\<exists>gc. costo_g st c = Some gc \<and> gc \<le> ga)"
  unfolding inv_heap_def by blast

lemma inv_abiertosD:
  "inv_abiertos t st \<Longrightarrow> costo_g st c = Some gc \<Longrightarrow> c \<notin> cerrados st \<Longrightarrow>
     (gc + h_de t c, gc, c) \<in> set (abiertos st)"
  unfolding inv_abiertos_def by blast

lemma inv_costoD:
  "inv_costo g s st \<Longrightarrow> costo_g st c = Some gc \<Longrightarrow>
     0 \<le> gc \<and> gc < 10 ^ 9 \<and> libre g c \<and>
     ((c = s \<and> gc = 0 \<and> vino_de st c = None) \<or>
      (\<exists>p. vino_de st c = Some p \<and> p \<in> cerrados st \<and> costo_g st p = Some (gc - 1) \<and> adyacente p c))"
  unfolding inv_costo_def by blast

lemma inv_cerradosD:
  "inv_cerrados g s st \<Longrightarrow> c \<in> cerrados st \<Longrightarrow>
     \<exists>gc. costo_g st c = Some gc \<and> (\<forall>n. alcanza g s c n \<longrightarrow> gc \<le> int n)"
  unfolding inv_cerrados_def by blast

lemma inv_fronteraD:
  "inv_frontera g P st \<Longrightarrow> x \<in> cerrados st \<Longrightarrow> (x, y) \<notin> P \<Longrightarrow> adyacente x y \<Longrightarrow> libre g y \<Longrightarrow>
     costo_g st x = Some gx \<Longrightarrow> gx + 1 < 10 ^ 9 \<Longrightarrow> \<exists>gy. costo_g st y = Some gy \<and> gy \<le> gx + 1"
  unfolding inv_frontera_def by blast

definition tope_costo :: "busqueda \<Rightarrow> celda \<Rightarrow> int" where
  "tope_costo st c = (case costo_g st c of None \<Rightarrow> 10 ^ 9 | Some v \<Rightarrow> v)"

lemma relajar_igual:
  assumes "\<not> libre g (fst u + fst d, snd u + snd d) \<or> \<not> gu + 1 < tope_costo st (fst u + fst d, snd u + snd d)"
  shows "relajar g t gu u d st = st"
  using assms by (auto simp: relajar_def Let_def libre_def tope_costo_def)

lemma relajar_mejora:
  assumes "libre g (fst u + fst d, snd u + snd d)" "gu + 1 < tope_costo st (fst u + fst d, snd u + snd d)"
  shows "relajar g t gu u d st =
           st\<lparr>costo_g := (costo_g st)((fst u + fst d, snd u + snd d) \<mapsto> gu + 1),
              vino_de := (vino_de st)((fst u + fst d, snd u + snd d) \<mapsto> u),
              abiertos := abiertos st @ [(gu + 1 + h_de t (fst u + fst d, snd u + snd d), gu + 1,
                                         (fst u + fst d, snd u + snd d))]\<rparr>"
  using assms by (simp add: relajar_def Let_def libre_def tope_costo_def heappush_def h_de_def)

lemma inv_bucle_inicial:
  assumes "libre g s" "libre g t"
  shows "inv_bucle g s t {}
           \<lparr>abiertos = heappush [] (heuristica t (fst s) (snd s), 0, s),
            vino_de = Map.empty, costo_g = [s \<mapsto> 0], cerrados = {}\<rparr>"
  using assms
  unfolding inv_bucle_def inv_heap_def inv_costo_def inv_cerrados_def inv_abiertos_def
    inv_frontera_def heappush_def h_de_def
  by (auto split: if_splits)

lemma inv_pop_cerrado:
  assumes inv: "inv_bucle g s t {} st"
    and ne: "abiertos st \<noteq> []"
    and cl: "snd (snd (tope (abiertos st))) \<in> cerrados st"
  shows "inv_bucle g s t {} (st\<lparr>abiertos := resto (abiertos st)\<rparr>)"
proof -
  let ?st' = "st\<lparr>abiertos := resto (abiertos st)\<rparr>"
  from inv have ih: "inv_heap t st" and ic: "inv_costo g s st" and ice: "inv_cerrados g s st"
    and ia: "inv_abiertos t st" and ifr: "inv_frontera g {} st" and tn: "t \<notin> cerrados st"
    and s0: "costo_g st s = Some 0"
    unfolding inv_bucle_def by blast+
  have "inv_heap t ?st'"
    unfolding inv_heap_def
  proof (intro allI impI)
    fix f' ga' c assume "(f', ga', c) \<in> set (abiertos ?st')"
    with set_resto [of "abiertos st"] have "(f', ga', c) \<in> set (abiertos st)" by auto
    with ih show "f' = ga' + h_de t c \<and> ga' < 10 ^ 9 \<and>
        (\<exists>gc. costo_g ?st' c = Some gc \<and> gc \<le> ga')"
      using inv_heapD [of t st f' ga' c] by simp
  qed
  moreover have "inv_costo g s ?st'"
    using ic unfolding inv_costo_def by simp
  moreover have "inv_cerrados g s ?st'"
    using ice unfolding inv_cerrados_def by simp
  moreover have "inv_abiertos t ?st'"
    unfolding inv_abiertos_def
  proof (intro allI impI)
    fix c gc assume a: "costo_g ?st' c = Some gc" "c \<notin> cerrados ?st'"
    then have "costo_g st c = Some gc" "c \<notin> cerrados st" by simp_all
    from inv_abiertosD [OF ia this] have m: "(gc + h_de t c, gc, c) \<in> set (abiertos st)" .
    from \<open>c \<notin> cerrados st\<close> cl have "snd (snd (tope (abiertos st))) \<noteq> c" by blast
    then have "(gc + h_de t c, gc, c) \<noteq> tope (abiertos st)" by (metis snd_conv)
    with m show "(gc + h_de t c, gc, c) \<in> set (abiertos ?st')"
      by (simp add: resto_def)
  qed
  moreover have "inv_frontera g {} ?st'"
    using ifr unfolding inv_frontera_def by simp
  ultimately show ?thesis
    using tn s0 unfolding inv_bucle_def by simp
qed

lemma inv_pop_abierto:
  assumes inv: "inv_bucle g s t {} st"
    and ne: "abiertos st \<noteq> []"
    and top: "tope (abiertos st) = (f, ga, u)"
    and nc: "u \<notin> cerrados st"
    and nt: "u \<noteq> t"
  shows "inv_bucle g s t ({u} \<times> UNIV)
           (st\<lparr>abiertos := resto (abiertos st), cerrados := insert u (cerrados st)\<rparr>)"
proof -
  let ?st' = "st\<lparr>abiertos := resto (abiertos st), cerrados := insert u (cerrados st)\<rparr>"
  from inv have ih: "inv_heap t st" and ic: "inv_costo g s st" and ice: "inv_cerrados g s st"
    and ia: "inv_abiertos t st" and ifr: "inv_frontera g {} st" and tn: "t \<notin> cerrados st"
    and s0: "costo_g st s = Some 0"
    unfolding inv_bucle_def by blast+
  note opt = tope_optimo [OF inv ne top nc]
  have "inv_heap t ?st'"
    unfolding inv_heap_def
  proof (intro allI impI)
    fix f' ga' c assume "(f', ga', c) \<in> set (abiertos ?st')"
    with set_resto [of "abiertos st"] have "(f', ga', c) \<in> set (abiertos st)" by auto
    with ih show "f' = ga' + h_de t c \<and> ga' < 10 ^ 9 \<and>
        (\<exists>gc. costo_g ?st' c = Some gc \<and> gc \<le> ga')"
      using inv_heapD [of t st f' ga' c] by simp
  qed
  moreover have "inv_costo g s ?st'"
    using ic unfolding inv_costo_def by simp blast
  moreover have "inv_cerrados g s ?st'"
    using ice opt unfolding inv_cerrados_def by simp
  moreover have "inv_abiertos t ?st'"
    unfolding inv_abiertos_def
  proof (intro allI impI)
    fix c gc assume a: "costo_g ?st' c = Some gc" "c \<notin> cerrados ?st'"
    then have "costo_g st c = Some gc" "c \<notin> cerrados st" by simp_all
    from inv_abiertosD [OF ia this] have m: "(gc + h_de t c, gc, c) \<in> set (abiertos st)" .
    from a(2) top have "(gc + h_de t c, gc, c) \<noteq> tope (abiertos st)" by auto
    with m show "(gc + h_de t c, gc, c) \<in> set (abiertos ?st')"
      by (simp add: resto_def)
  qed
  moreover have "inv_frontera g ({u} \<times> UNIV) ?st'"
    using ifr unfolding inv_frontera_def by simp
  ultimately show ?thesis
    using tn s0 nt unfolding inv_bucle_def by simp
qed

subsection \<open>Relaxing one neighbour\<close>


lemma tope_costo_Some: "costo_g st c = Some v \<Longrightarrow> tope_costo st c = v"
  by (simp add: tope_costo_def)

lemma tope_costo_None: "costo_g st c = None \<Longrightarrow> tope_costo st c = 10 ^ 9"
  by (simp add: tope_costo_def)

lemma inv_relajar:
  assumes inv: "inv_bucle g s t P st"
    and uc: "u \<in> cerrados st"
    and gu: "costo_g st u = Some gu"
    and ady: "adyacente u y"
    and y: "y = (fst u + fst d, snd u + snd d)"
  shows "inv_bucle g s t (P - {(u, y)}) (relajar g t gu u d st)
         \<and> costo_g (relajar g t gu u d st) u = Some gu"
proof -
  from inv have ih: "inv_heap t st" and ic: "inv_costo g s st" and ice: "inv_cerrados g s st"
    and ia: "inv_abiertos t st" and ifr: "inv_frontera g P st" and tn: "t \<notin> cerrados st"
    and s0: "costo_g st s = Some 0"
    unfolding inv_bucle_def by blast+
  from inv_costoD [OF ic gu] have gu0: "0 \<le> gu" by blast
  show ?thesis
  proof (cases "libre g y \<and> gu + 1 < tope_costo st y")
    case False
    then have eq: "relajar g t gu u d st = st"
      unfolding y by (intro relajar_igual) blast
    have "inv_frontera g (P - {(u, y)}) st"
      unfolding inv_frontera_def
    proof (intro allI impI)
      fix x z gx
      assume a: "x \<in> cerrados st" "(x, z) \<notin> P - {(u, y)}" "adyacente x z" "libre g z"
        "costo_g st x = Some gx" "gx + 1 < 10 ^ 9"
      show "\<exists>gy. costo_g st z = Some gy \<and> gy \<le> gx + 1"
      proof (cases "(x, z) = (u, y)")
        case True
        with a gu have gx: "gx = gu" and ly: "libre g y" by auto
        with False have nlt: "\<not> gu + 1 < tope_costo st y" by blast
        show ?thesis
        proof (cases "costo_g st y")
          case None
          with nlt a(6) gx show ?thesis by (simp add: tope_costo_None)
        next
          case (Some gy)
          with nlt gx True show ?thesis by (simp add: tope_costo_Some)
        qed
      next
        case False
        with a(2) have "(x, z) \<notin> P" by blast
        from inv_fronteraD [OF ifr a(1) this a(3) a(4) a(5) a(6)] show ?thesis .
      qed
    qed
    with inv gu show ?thesis unfolding eq inv_bucle_def by blast
  next
    case True
    then have ly: "libre g y" and lt: "gu + 1 < tope_costo st y" by blast+
    let ?st' = "st\<lparr>costo_g := (costo_g st)(y \<mapsto> gu + 1),
                   vino_de := (vino_de st)(y \<mapsto> u),
                   abiertos := abiertos st @ [(gu + 1 + h_de t y, gu + 1, y)]\<rparr>"
    have eq: "relajar g t gu u d st = ?st'"
      using relajar_mejora [of g u d gu st t] ly lt unfolding y by simp
    have yu: "y \<noteq> u" using ady by (auto dest: adyacente_distinto)
    have au: "alcanza g s u (nat gu)" by (rule costo_alcanza [OF ic gu refl])
    then have ay: "alcanza g s y (Suc (nat gu))" using ady ly by (rule alcanza_Suc)
    have ync: "y \<notin> cerrados st"
    proof
      assume "y \<in> cerrados st"
      from inv_cerradosD [OF ice this] obtain gy where
        gy: "costo_g st y = Some gy" "\<forall>n. alcanza g s y n \<longrightarrow> gy \<le> int n" by blast
      with ay have "gy \<le> int (Suc (nat gu))" by blast
      with gu0 lt gy(1) show False by (simp add: tope_costo_Some)
    qed
    have lt9: "gu + 1 < 10 ^ 9"
    proof (cases "costo_g st y")
      case None
      with lt show ?thesis by (simp add: tope_costo_None)
    next
      case (Some gy)
      with inv_costoD [OF ic Some] lt show ?thesis by (simp add: tope_costo_Some)
    qed
    have ys: "y \<noteq> s"
      using s0 lt gu0 by (auto simp: tope_costo_Some)
    have baja: "\<And>gy. costo_g st y = Some gy \<Longrightarrow> gu + 1 < gy"
      using lt by (simp add: tope_costo_Some)
    have "inv_heap t ?st'"
      unfolding inv_heap_def
    proof (intro allI impI)
      fix f ga c assume "(f, ga, c) \<in> set (abiertos ?st')"
      then consider "(f, ga, c) \<in> set (abiertos st)" | "(f, ga, c) = (gu + 1 + h_de t y, gu + 1, y)"
        by auto
      then show "f = ga + h_de t c \<and> ga < 10 ^ 9 \<and> (\<exists>gc. costo_g ?st' c = Some gc \<and> gc \<le> ga)"
      proof cases
        case 1
        from inv_heapD [OF ih 1] obtain gc where
          h: "f = ga + h_de t c" "ga < 10 ^ 9" "costo_g st c = Some gc" "gc \<le> ga" by blast
        show ?thesis
        proof (cases "c = y")
          case True
          with h baja [of gc] show ?thesis by simp
        next
          case False
          with h show ?thesis by simp
        qed
      next
        case 2
        with lt9 show ?thesis by simp
      qed
    qed
    moreover have "inv_costo g s ?st'"
      unfolding inv_costo_def
    proof (intro allI impI)
      fix c gc assume a: "costo_g ?st' c = Some gc"
      show "0 \<le> gc \<and> gc < 10 ^ 9 \<and> libre g c \<and>
        ((c = s \<and> gc = 0 \<and> vino_de ?st' c = None) \<or>
         (\<exists>p. vino_de ?st' c = Some p \<and> p \<in> cerrados ?st' \<and> costo_g ?st' p = Some (gc - 1) \<and> adyacente p c))"
      proof (cases "c = y")
        case True
        with a have "gc = gu + 1" by simp
        with True gu0 lt9 ly uc gu yu ady show ?thesis by simp
      next
        case False
        with a have c: "costo_g st c = Some gc" by simp
        from inv_costoD [OF ic c] have b: "0 \<le> gc" "gc < 10 ^ 9" "libre g c"
          and d: "(c = s \<and> gc = 0 \<and> vino_de st c = None) \<or>
            (\<exists>p. vino_de st c = Some p \<and> p \<in> cerrados st \<and> costo_g st p = Some (gc - 1) \<and> adyacente p c)"
          by blast+
        from d show ?thesis
        proof
          assume "c = s \<and> gc = 0 \<and> vino_de st c = None"
          with False have "c = s \<and> gc = 0 \<and> vino_de ?st' c = None" by auto
          with b show ?thesis by blast
        next
          assume "\<exists>p. vino_de st c = Some p \<and> p \<in> cerrados st \<and> costo_g st p = Some (gc - 1) \<and> adyacente p c"
          then obtain p where p: "vino_de st c = Some p" "p \<in> cerrados st"
            "costo_g st p = Some (gc - 1)" "adyacente p c" by blast
          with ync have "p \<noteq> y" by blast
          with p False have "vino_de ?st' c = Some p \<and> p \<in> cerrados ?st' \<and>
            costo_g ?st' p = Some (gc - 1) \<and> adyacente p c" by simp
          with b show ?thesis by blast
        qed
      qed
    qed
    moreover have "inv_cerrados g s ?st'"
      unfolding inv_cerrados_def
    proof
      fix c assume "c \<in> cerrados ?st'"
      then have cc: "c \<in> cerrados st" by simp
      with ync have "c \<noteq> y" by blast
      with inv_cerradosD [OF ice cc]
      show "\<exists>gc. costo_g ?st' c = Some gc \<and> (\<forall>n. alcanza g s c n \<longrightarrow> gc \<le> int n)" by simp
    qed
    moreover have "inv_abiertos t ?st'"
      unfolding inv_abiertos_def
    proof (intro allI impI)
      fix c gc assume a: "costo_g ?st' c = Some gc" "c \<notin> cerrados ?st'"
      show "(gc + h_de t c, gc, c) \<in> set (abiertos ?st')"
      proof (cases "c = y")
        case True
        with a show ?thesis by simp
      next
        case False
        with a have "costo_g st c = Some gc" "c \<notin> cerrados st" by simp_all
        from inv_abiertosD [OF ia this] show ?thesis by simp
      qed
    qed
    moreover have "inv_frontera g (P - {(u, y)}) ?st'"
      unfolding inv_frontera_def
    proof (intro allI impI)
      fix x z gx
      assume a: "x \<in> cerrados ?st'" "(x, z) \<notin> P - {(u, y)}" "adyacente x z" "libre g z"
        "costo_g ?st' x = Some gx" "gx + 1 < 10 ^ 9"
      from a(1) have xc: "x \<in> cerrados st" by simp
      with ync have "x \<noteq> y" by blast
      with a(5) have gx: "costo_g st x = Some gx" by simp
      show "\<exists>gy. costo_g ?st' z = Some gy \<and> gy \<le> gx + 1"
      proof (cases "(x, z) = (u, y)")
        case True
        with gx gu show ?thesis by simp
      next
        case False
        with a(2) have "(x, z) \<notin> P" by blast
        from inv_fronteraD [OF ifr xc this a(3) a(4) gx a(6)]
        obtain gy where gy: "costo_g st z = Some gy" "gy \<le> gx + 1" by blast
        show ?thesis
        proof (cases "z = y")
          case True
          with gy baja [of gy] show ?thesis by simp
        next
          case False
          with gy show ?thesis by simp
        qed
      qed
    qed
    ultimately show ?thesis
      unfolding eq inv_bucle_def using tn s0 ys yu gu by simp
  qed
qed

subsection \<open>Expansion, reconstruction and the result of the loop\<close>


lemma inv_frontera_no_ady:
  assumes "inv_frontera g P st" "\<forall>x y. (x, y) \<in> P \<longrightarrow> \<not> adyacente x y"
  shows "inv_frontera g {} st"
  unfolding inv_frontera_def
proof (intro allI impI)
  fix x y gx
  assume a: "x \<in> cerrados st" "(x, y) \<notin> {}" "adyacente x y" "libre g y"
    "costo_g st x = Some gx" "gx + 1 < 10 ^ 9"
  with assms(2) have "(x, y) \<notin> P" by blast
  from inv_fronteraD [OF assms(1) a(1) this a(3) a(4) a(5) a(6)]
  show "\<exists>gy. costo_g st y = Some gy \<and> gy \<le> gx + 1" .
qed

definition vecina :: "celda \<Rightarrow> int \<times> int \<Rightarrow> celda" where
  "vecina u d = (fst u + fst d, snd u + snd d)"

lemma inv_fold_relajar:
  assumes "set ds \<subseteq> set deltas"
  shows "inv_bucle g s t P st \<Longrightarrow> u \<in> cerrados st \<Longrightarrow> costo_g st u = Some gu \<Longrightarrow>
         inv_bucle g s t (P - {u} \<times> vecina u ` set ds) (fold (relajar g t gu u) ds st)"
  using assms
proof (induction ds arbitrary: P st)
  case Nil
  then show ?case by simp
next
  case (Cons d ds)
  let ?y = "vecina u d"
  let ?st' = "relajar g t gu u d st"
  from Cons.prems(4) have "d \<in> set deltas" by simp
  then have ady: "adyacente u ?y"
    unfolding adyacente_deltas vecina_def by blast
  from inv_relajar [OF Cons.prems(1) Cons.prems(2) Cons.prems(3) ady, of d]
  have i: "inv_bucle g s t (P - {(u, ?y)}) ?st'" and gu': "costo_g ?st' u = Some gu"
    by (simp_all add: vecina_def)
  have c: "u \<in> cerrados ?st'"
    using Cons.prems(2) by (simp add: cerrados_relajar)
  from Cons.prems(4) have sub: "set ds \<subseteq> set deltas" by simp
  have "P - {(u, ?y)} - {u} \<times> vecina u ` set ds = P - {u} \<times> vecina u ` set (d # ds)"
    by auto
  with Cons.IH [OF i c gu' sub] show ?case by simp
qed

lemma inv_expandir:
  assumes "inv_bucle g s t ({u} \<times> UNIV) st" "u \<in> cerrados st" "costo_g st u = Some gu"
  shows "inv_bucle g s t {} (expandir g t gu u st)"
proof -
  let ?P = "{u} \<times> UNIV - {u} \<times> vecina u ` set deltas"
  from inv_fold_relajar [OF subset_refl assms]
  have i: "inv_bucle g s t ?P (expandir g t gu u st)"
    unfolding expandir_def .
  have "\<forall>x y. (x, y) \<in> ?P \<longrightarrow> \<not> adyacente x y"
    unfolding adyacente_deltas vecina_def by auto
  with i show ?thesis
    unfolding inv_bucle_def by (blast intro: inv_frontera_no_ady)
qed

lemma reconstruir_ok:
  assumes "inv_costo g s st"
  shows "costo_g st c = Some gc \<Longrightarrow> nat gc = n \<Longrightarrow>
         \<exists>q. reconstruir (vino_de st) c ruta = Some (q @ rev ruta) \<and> length q = n \<and>
             (if q = [] then c = s else hd q = s \<and> camino g q \<and> adyacente (last q) c)"
proof (induction n arbitrary: c gc ruta)
  case 0
  from inv_costoD [OF assms 0(1)] have "0 \<le> gc"
    and d: "(c = s \<and> gc = 0 \<and> vino_de st c = None) \<or>
       (\<exists>p. vino_de st c = Some p \<and> p \<in> cerrados st \<and> costo_g st p = Some (gc - 1) \<and> adyacente p c)"
    by blast+
  with 0(2) have g0: "gc = 0" by simp
  have "\<not> (\<exists>p. costo_g st p = Some (gc - 1))"
  proof
    assume "\<exists>p. costo_g st p = Some (gc - 1)"
    then obtain p where "costo_g st p = Some (gc - 1)" by blast
    from inv_costoD [OF assms this] g0 show False by simp
  qed
  with d have "c = s" "vino_de st c = None" by blast+
  then show ?case
    by (subst reconstruir.simps) simp
next
  case (Suc n)
  from inv_costoD [OF assms Suc(2)]
  have d: "(c = s \<and> gc = 0 \<and> vino_de st c = None) \<or>
       (\<exists>p. vino_de st c = Some p \<and> p \<in> cerrados st \<and> costo_g st p = Some (gc - 1) \<and> adyacente p c)"
    by blast
  from Suc(3) have "gc \<noteq> 0" by auto
  with d obtain p where p: "vino_de st c = Some p" "costo_g st p = Some (gc - 1)" "adyacente p c"
    by blast
  have lp: "libre g p" using inv_costoD [OF assms p(2)] by blast
  have "nat (gc - 1) = n" using Suc(3) by simp
  from Suc.IH [OF p(2) this, of "ruta @ [p]"] obtain q where
    q: "reconstruir (vino_de st) p (ruta @ [p]) = Some (q @ rev (ruta @ [p]))" "length q = n"
       "if q = [] then p = s else hd q = s \<and> camino g q \<and> adyacente (last q) p"
    by blast
  have r: "reconstruir (vino_de st) c ruta = Some ((q @ [p]) @ rev ruta)"
    using p(1) q(1) by (subst reconstruir.simps) simp
  have "hd (q @ [p]) = s" using q(3) by (cases q) (auto split: if_splits)
  moreover have "camino g (q @ [p])"
    using q(3) lp by (auto simp: camino_snoc split: if_splits)
  ultimately show ?case
    using r q(2) p(3) by (intro exI [of _ "q @ [p]"]) simp
qed

definition resultado_ok :: "grid \<Rightarrow> celda \<Rightarrow> celda \<Rightarrow> celda list option option \<Rightarrow> bool" where
  "resultado_ok g s t r \<longleftrightarrow>
     (case r of
        None \<Rightarrow> False
      | Some None \<Rightarrow> (\<forall>n. alcanza g s t n \<longrightarrow> 10 ^ 9 \<le> int n)
      | Some (Some p) \<Rightarrow>
          une g s t p \<and> int (length p) \<le> 10 ^ 9 \<and> (\<forall>n. alcanza g s t n \<longrightarrow> length p \<le> Suc n))"

lemma bucle_vacio_ok:
  assumes inv: "inv_bucle g s t {} st" and e: "abiertos st = []"
  shows "resultado_ok g s t (Some None)"
proof -
  from inv have ice: "inv_cerrados g s st"
    and ia: "inv_abiertos t st" and ifr: "inv_frontera g {} st" and tn: "t \<notin> cerrados st"
    and s0: "costo_g st s = Some 0"
    unfolding inv_bucle_def by blast+
  have "10 ^ 9 \<le> int n" if a: "alcanza g s t n" for n
  proof (rule ccontr)
    assume "\<not> 10 ^ 9 \<le> int n"
    then have "int n < 10 ^ 9" by simp
    from frontera_abierta [OF ice ia ifr s0 a this] tn e show False by simp
  qed
  then show ?thesis by (simp add: resultado_ok_def)
qed

lemma bucle_meta_ok:
  assumes inv: "inv_bucle g s t {} st"
    and ne: "abiertos st \<noteq> []"
    and top: "tope (abiertos st) = (f, ga, t)"
    and nc: "t \<notin> cerrados st"
  shows "resultado_ok g s t (map_option Some (reconstruir (vino_de st) t [t]))"
proof -
  from inv have ic: "inv_costo g s st" unfolding inv_bucle_def by blast
  note opt = tope_optimo [OF inv ne top nc]
  from inv_costoD [OF ic opt(1)] have ga: "0 \<le> ga" "ga < 10 ^ 9" and lt: "libre g t" by blast+
  from reconstruir_ok [OF ic opt(1) refl, of "[t]"] obtain q where
    q: "reconstruir (vino_de st) t [t] = Some (q @ [t])" "length q = nat ga"
       "if q = [] then t = s else hd q = s \<and> camino g q \<and> adyacente (last q) t"
    by auto
  have "camino g (q @ [t])" using q(3) lt by (auto simp: camino_snoc split: if_splits)
  moreover have "hd (q @ [t]) = s" using q(3) by (cases q) (auto split: if_splits)
  ultimately have u: "une g s t (q @ [t])" by (simp add: une_def)
  have len: "int (length (q @ [t])) = ga + 1" using q(2) ga by simp
  have "length (q @ [t]) \<le> Suc n" if "alcanza g s t n" for n
    using opt(2) that len by fastforce
  with u len ga show ?thesis
    by (simp add: resultado_ok_def q(1))
qed

lemma bucle_ok:
  "inv_bucle g s t {} st \<Longrightarrow> resultado_ok g s t (bucle g t st)"
proof (induction g t st rule: bucle.induct)
  case (1 g t st)
  note inv = "1.prems"
  show ?case
  proof (cases "abiertos st = []")
    case True
    with bucle_vacio_ok [OF inv True] show ?thesis
      by (subst bucle.simps) simp
  next
    case ne: False
    obtain f ga u where top: "tope (abiertos st) = (f, ga, u)"
      by (cases "tope (abiertos st)") auto
    let ?st1 = "st\<lparr>abiertos := resto (abiertos st)\<rparr>"
    show ?thesis
    proof (cases "u \<in> cerrados st")
      case True
      then have c1: "u \<in> cerrados ?st1" by simp
      have "inv_bucle g s t {} ?st1"
        using inv_pop_cerrado [OF inv ne] True top by simp
      from "1.IH"(1) [OF ne refl refl refl _ this] c1 top
      have "resultado_ok g s t (bucle g t ?st1)" by simp
      moreover have "bucle g t st = bucle g t ?st1"
        using ne top True by (subst bucle.simps) (simp add: Let_def)
      ultimately show ?thesis by simp
    next
      case nc: False
      let ?st2 = "?st1\<lparr>cerrados := insert u (cerrados ?st1)\<rparr>"
      show ?thesis
      proof (cases "u = t")
        case True
        have "bucle g t st = map_option Some (reconstruir (vino_de st) t [t])"
          using ne top nc True by (subst bucle.simps) (simp add: Let_def)
        with bucle_meta_ok [OF inv ne _ _] top nc True show ?thesis by simp
      next
        case nt: False
        have i2: "inv_bucle g s t ({u} \<times> UNIV) ?st2"
          using inv_pop_abierto [OF inv ne top nc nt] by simp
        have gu: "costo_g ?st2 u = Some ga"
          using tope_optimo(1) [OF inv ne top nc] by simp
        have "inv_bucle g s t {} (expandir g t ga u ?st2)"
          by (rule inv_expandir [OF i2 _ gu]) simp
        moreover have nc1: "u \<notin> cerrados ?st1" using nc by simp
        ultimately have "resultado_ok g s t (bucle g t (expandir g t ga u ?st2))"
          using "1.IH"(2) [OF ne refl refl refl _ refl] top nt by simp
        moreover have "bucle g t st = bucle g t (expandir g t ga u ?st2)"
          using ne top nc nt by (subst bucle.simps) (simp add: Let_def)
        ultimately show ?thesis by simp
      qed
    qed
  qed
qed

subsection \<open>The planner as a whole\<close>


lemma a_estrella_invalido:
  "\<not> (libre g s \<and> libre g t) \<Longrightarrow> a_estrella g s t = Some None"
  by (auto simp: a_estrella_def libre_def Let_def)

lemma a_estrella_valido:
  assumes "libre g s" "libre g t"
  shows "resultado_ok g s t (a_estrella g s t)"
proof -
  have "a_estrella g s t =
      bucle g t \<lparr>abiertos = heappush [] (heuristica t (fst s) (snd s), 0, s),
                 vino_de = Map.empty, costo_g = [s \<mapsto> 0], cerrados = {}\<rparr>"
    using assms by (simp add: a_estrella_def libre_def Let_def)
  with bucle_ok [OF inv_bucle_inicial [OF assms]] show ?thesis by simp
qed

lemma une_libre: "une g s t p \<Longrightarrow> libre g s \<and> libre g t"
proof -
  assume u: "une g s t p"
  then have "p \<noteq> []" by (auto simp: une_def)
  then have "hd p \<in> set p" "last p \<in> set p" by simp_all
  with u show ?thesis by (auto simp: une_def intro: camino_libre)
qed

lemma une_alcanza: "une g s t p \<Longrightarrow> alcanza g s t (length p - 1)"
  unfolding alcanza_def by (rule exI [of _ p]) (auto simp: une_def dest: camino_no_vacio)

lemma a_estrella_retorna: "a_estrella g s t \<noteq> None"
proof (cases "libre g s \<and> libre g t")
  case True
  with a_estrella_valido [of g s t] show ?thesis
    by (cases "a_estrella g s t") (auto simp: resultado_ok_def)
next
  case False
  then show ?thesis by (simp add: a_estrella_invalido)
qed

lemma a_estrella_ruta:
  assumes "a_estrella g s t = Some (Some p)"
  shows "une g s t p" and "int (length p) \<le> 10 ^ 9" and "une g s t q \<Longrightarrow> length p \<le> length q"
proof -
  have l: "libre g s \<and> libre g t"
    using assms a_estrella_invalido [of g s t] by auto
  with a_estrella_valido [of g s t] assms
  have r: "une g s t p" "int (length p) \<le> 10 ^ 9" "\<forall>n. alcanza g s t n \<longrightarrow> length p \<le> Suc n"
    by (simp_all add: resultado_ok_def)
  show "une g s t p" "int (length p) \<le> 10 ^ 9" by fact+
  assume q: "une g s t q"
  then have "q \<noteq> []" by (auto simp: une_def dest: camino_no_vacio)
  with r(3) une_alcanza [OF q] show "length p \<le> length q" by fastforce
qed

lemma a_estrella_nada_iff:
  "a_estrella g s t = Some None \<longleftrightarrow> \<not> (\<exists>q. une g s t q \<and> int (length q) \<le> 10 ^ 9)"
proof
  assume n: "a_estrella g s t = Some None"
  show "\<not> (\<exists>q. une g s t q \<and> int (length q) \<le> 10 ^ 9)"
  proof
    assume "\<exists>q. une g s t q \<and> int (length q) \<le> 10 ^ 9"
    then obtain q where q: "une g s t q" "int (length q) \<le> 10 ^ 9" by blast
    from une_libre [OF q(1)] a_estrella_valido [of g s t] n
    have "\<forall>n. alcanza g s t n \<longrightarrow> 10 ^ 9 \<le> int n" by (simp add: resultado_ok_def)
    with une_alcanza [OF q(1)] have "10 ^ 9 \<le> int (length q - 1)" by blast
    with q(2) show False by simp
  qed
next
  assume n: "\<not> (\<exists>q. une g s t q \<and> int (length q) \<le> 10 ^ 9)"
  show "a_estrella g s t = Some None"
  proof (cases "libre g s \<and> libre g t")
    case False
    then show ?thesis by (rule a_estrella_invalido)
  next
    case True
    from a_estrella_retorna [of g s t] obtain r where r: "a_estrella g s t = Some r" by auto
    show ?thesis
    proof (cases r)
      case None
      with r show ?thesis by simp
    next
      case (Some p)
      with r a_estrella_ruta(1,2) [of g s t p] n show ?thesis by blast
    qed
  qed
qed

lemma a_estrella_misma:
  assumes "libre g s"
  shows "a_estrella g s s = Some (Some [s])"
proof -
  have u: "une g s s [s]" using assms by (simp add: une_def)
  have "a_estrella g s s \<noteq> Some None"
  proof
    assume "a_estrella g s s = Some None"
    then have "\<not> (\<exists>q. une g s s q \<and> int (length q) \<le> 10 ^ 9)"
      using a_estrella_nada_iff [of g s s] by blast
    moreover have "une g s s [s] \<and> int (length [s]) \<le> 10 ^ 9" using u by simp
    ultimately show False by blast
  qed
  with a_estrella_retorna [of g s s] obtain p where p: "a_estrella g s s = Some (Some p)"
    by (cases "a_estrella g s s") auto
  from a_estrella_ruta(1) [OF p] a_estrella_ruta(3) [OF p u]
  have "une g s s p" "length p \<le> 1" by simp_all
  then have "p = [s]"
    by (cases p) (auto simp: une_def)
  with p show ?thesis by simp
qed

text \<open>Manhattan distance bounds the number of moves from below.\<close>

lemma alcanza_manhattan: "alcanza g s c n \<Longrightarrow> h_de s c \<le> int n"
proof (induction n arbitrary: c)
  case 0
  then show ?case by (simp add: alcanza_0_iff h_de_def heuristica_def)
next
  case (Suc n)
  from alcanza_Suc_elim [OF Suc.prems] obtain b where
    b: "alcanza g s b n" "adyacente b c" by blast
  have "adyacente c b" using b(2) by (simp add: adyacente_def abs_minus_commute)
  from h_de_adyacente [OF this, of s] Suc.IH [OF b(1)] show ?case by simp
qed

definition pasillo :: "nat \<Rightarrow> celda list" where
  "pasillo n = map (\<lambda>i. (int i, 0)) [0 ..< n]"

lemma camino_pasillo:
  "(\<forall>i \<le> n. libre g (int i, 0)) \<Longrightarrow> camino g (pasillo (Suc n))"
proof (induction n)
  case 0
  then show ?case by (simp add: pasillo_def)
next
  case (Suc n)
  then have "camino g (pasillo (Suc n))" by simp
  moreover have "pasillo (Suc (Suc n)) = pasillo (Suc n) @ [(int (Suc n), 0)]"
    by (simp add: pasillo_def)
  moreover have "last (pasillo (Suc n)) = (int n, 0)"
    by (simp add: pasillo_def)
  moreover have "libre g (int (Suc n), 0)"
    using Suc.prems by blast
  ultimately show ?case
    by (simp add: camino_snoc adyacente_def del: upt_Suc)
qed

lemma hd_pasillo: "hd (pasillo (Suc n)) = (0, 0)"
  by (simp add: pasillo_def upt_conv_Cons [of 0] del: upt_Suc)

lemma last_pasillo: "last (pasillo (Suc n)) = (int n, 0)"
  unfolding pasillo_def by (simp add: last_map)

subsection \<open>A corridor too long for the sentinel\<close>


definition grid_pasillo :: "nat \<Rightarrow> grid" where
  "grid_pasillo n = [replicate n 0]"

lemma libre_grid_pasillo: "i < n \<Longrightarrow> libre (grid_pasillo n) (int i, 0)"
  by (simp add: libre_def en_rango_def transitable_def valor_def ancho_def alto_def
      grid_pasillo_def LIBRE_def)

lemma une_grid_pasillo: "une (grid_pasillo (Suc n)) (0, 0) (int n, 0) (pasillo (Suc n))"
proof -
  have "camino (grid_pasillo (Suc n)) (pasillo (Suc n))"
    by (rule camino_pasillo) (simp add: libre_grid_pasillo)
  then show ?thesis
    by (simp only: une_def hd_pasillo last_pasillo)
qed

lemma a_estrella_grid_pasillo:
  assumes "10 ^ 9 \<le> int n"
  shows "a_estrella (grid_pasillo (Suc n)) (0, 0) (int n, 0) = Some None"
  unfolding a_estrella_nada_iff
proof
  assume "\<exists>q. une (grid_pasillo (Suc n)) (0, 0) (int n, 0) q \<and> int (length q) \<le> 10 ^ 9"
  then obtain q where q: "une (grid_pasillo (Suc n)) (0, 0) (int n, 0) q" "int (length q) \<le> 10 ^ 9"
    by blast
  from alcanza_manhattan [OF une_alcanza [OF q(1)]]
  have "int n \<le> int (length q - 1)" by (simp add: h_de_def heuristica_def)
  with q(2) assms show False by simp
qed

subsection \<open>The planner below the sentinel\<close>

definition grid_ejemplo :: grid where
  "grid_ejemplo = [[0, 0, 0], [0, 1, 0], [0, 0, 2]]"

text \<open>
  What the loop invariant gives for every grid and every pair of cells \<open>s\<close> (start) and
  \<open>t\<close> (goal): the planner returns; a returned route is a sequence of 4-connected moves
  from \<open>s\<close> to \<open>t\<close> through in-bounds transitable cells, and no such sequence is
  shorter; it returns nothing exactly when an endpoint is out of bounds or not
  transitable, or no route of at most \<open>10**9\<close> cells joins them; and when start and
  goal are the same valid cell the route is that one cell.
\<close>

theorem a_estrella_correcto:
  "a_estrella g s t \<noteq> None \<and>
   (\<forall>p. a_estrella g s t = Some (Some p) \<longrightarrow>
      une g s t p \<and> (\<forall>q. une g s t q \<longrightarrow> length p \<le> length q)) \<and>
   (a_estrella g s t = Some None \<longleftrightarrow>
      \<not> libre g s \<or> \<not> libre g t \<or> \<not> (\<exists>q. une g s t q \<and> int (length q) \<le> 10 ^ 9)) \<and>
   (libre g s \<longrightarrow> a_estrella g s s = Some (Some [s]))"
proof (intro conjI allI impI)
  show "a_estrella g s t \<noteq> None" by (rule a_estrella_retorna)
next
  fix p assume "a_estrella g s t = Some (Some p)"
  then show "une g s t p" by (rule a_estrella_ruta(1))
next
  fix p q assume "a_estrella g s t = Some (Some p)" "une g s t q"
  then show "length p \<le> length q" by (rule a_estrella_ruta(3))
next
  show "a_estrella g s t = Some None \<longleftrightarrow>
      \<not> libre g s \<or> \<not> libre g t \<or> \<not> (\<exists>q. une g s t q \<and> int (length q) \<le> 10 ^ 9)"
    unfolding a_estrella_nada_iff using une_libre [of g s t] by blast
next
  assume "libre g s"
  then show "a_estrella g s s = Some (Some [s])" by (rule a_estrella_misma)
qed

lemma a_estrella_correcto_ejemplo:
  "a_estrella grid_ejemplo (0, 0) (2, 2) = Some (Some [(0, 0), (0, 1), (0, 2), (1, 2), (2, 2)]) \<and>
   une grid_ejemplo (0, 0) (2, 2) [(0, 0), (0, 1), (0, 2), (1, 2), (2, 2)] \<and>
   une grid_ejemplo (0, 0) (2, 2) [(0, 0), (1, 0), (2, 0), (2, 1), (2, 2)] \<and>
   length [(0, 0), (0, 1), (0, 2), (1, 2), (2, 2) :: celda] \<le> length [(0, 0), (1, 0), (2, 0), (2, 1), (2, 2) :: celda] \<and>
   a_estrella grid_ejemplo (0, 0) (1, 1) = Some None \<and> \<not> libre grid_ejemplo (1, 1) \<and>
   libre grid_ejemplo (2, 2) \<and> a_estrella grid_ejemplo (2, 2) (2, 2) = Some (Some [(2, 2)])"
proof -
  have r: "a_estrella grid_ejemplo (0, 0) (2, 2) = Some (Some [(0, 0), (0, 1), (0, 2), (1, 2), (2, 2)])"
    by code_simp
  have q: "une grid_ejemplo (0, 0) (2, 2) [(0, 0), (1, 0), (2, 0), (2, 1), (2, 2)]"
    by code_simp
  have n: "\<not> libre grid_ejemplo (1, 1)" by code_simp
  have l: "libre grid_ejemplo (2, 2)" by code_simp
  from a_estrella_correcto [of grid_ejemplo "(0, 0)" "(2, 2)"] r q
  have "une grid_ejemplo (0, 0) (2, 2) [(0, 0), (0, 1), (0, 2), (1, 2), (2, 2)]"
    "length [(0, 0), (0, 1), (0, 2), (1, 2), (2, 2) :: celda] \<le> length [(0, 0), (1, 0), (2, 0), (2, 1), (2, 2) :: celda]"
    by blast+
  moreover from a_estrella_correcto [of grid_ejemplo "(0, 0)" "(1, 1)"] n
  have "a_estrella grid_ejemplo (0, 0) (1, 1) = Some None" by blast
  moreover from a_estrella_correcto [of grid_ejemplo "(2, 2)" "(2, 2)"] l
  have "a_estrella grid_ejemplo (2, 2) (2, 2) = Some (Some [(2, 2)])" by blast
  ultimately show ?thesis using r q n l by blast
qed

section \<open>Claim C3: the planner\<close>

text \<open>
  Claim C3 fails on the code. The docstring of \<open>a_estrella\<close> promises a route, or
  \<open>None\<close> if the goal is not reachable. The loop reads the cost of a cell never seen
  as \<open>10**9\<close>, standing for "no cost yet", and pushes a neighbour only when its new cost
  is below what it reads; so no cell is ever reached with \<open>10**9\<close> moves or more. On a
  free corridor of \<open>10**9 + 1\<close> cells the far end is reachable from the near end (the
  corridor itself is a route) and the planner returns \<open>None\<close>.
\<close>

theorem C3_contraejemplo:
  "a_estrella (grid_pasillo 1000000001) (0, 0) (1000000000, 0) = Some None \<and>
   une (grid_pasillo 1000000001) (0, 0) (1000000000, 0) (pasillo 1000000001)"
proof -
  have e: "Suc 1000000000 = 1000000001" "int 1000000000 = 1000000000" by simp_all
  have "(10::int) ^ 9 \<le> int 1000000000" by simp
  from a_estrella_grid_pasillo [OF this] une_grid_pasillo [of 1000000000]
  show ?thesis unfolding e by blast
qed

text \<open>
  Both ends of the corridor are cells the planner accepts (in bounds and transitable),
  and the corridor, a route between them, is not what it answers.
\<close>

theorem C3_contraejemplo_testigo:
  "libre (grid_pasillo 1000000001) (0, 0) \<and> libre (grid_pasillo 1000000001) (1000000000, 0) \<and>
   a_estrella (grid_pasillo 1000000001) (0, 0) (1000000000, 0) \<noteq> Some (Some (pasillo 1000000001))"
  using C3_contraejemplo une_libre [of "grid_pasillo 1000000001" "(0, 0)" "(1000000000, 0)" "pasillo 1000000001"]
  by simp

section \<open>Reservation table (tabla\_reservas.py)\<close>

text \<open>
  Two dictionaries: \<open>(x, y, t) -> robot_id\<close> for cells and
  \<open>(x1, y1, x2, y2, t) -> robot_id\<close> for directed edges. Assignment to a key that
  is already present overwrites its value, as in Python.
\<close>

record tabla_reservas =
  reserva_celdas :: "int \<times> int \<times> nat \<rightharpoonup> nat"
  reserva_aristas :: "int \<times> int \<times> int \<times> int \<times> nat \<rightharpoonup> nat"

definition tabla_vacia :: tabla_reservas where
  "tabla_vacia = \<lparr>reserva_celdas = Map.empty, reserva_aristas = Map.empty\<rparr>"

definition celda_libre :: "tabla_reservas \<Rightarrow> celda \<Rightarrow> nat \<Rightarrow> bool" where
  "celda_libre tr c t \<longleftrightarrow> reserva_celdas tr (fst c, snd c, t) = None"

definition reservar_celda :: "tabla_reservas \<Rightarrow> nat \<Rightarrow> celda \<Rightarrow> nat \<Rightarrow> tabla_reservas" where
  "reservar_celda tr rid c t = tr\<lparr>reserva_celdas := (reserva_celdas tr)((fst c, snd c, t) \<mapsto> rid)\<rparr>"

definition arista_libre :: "tabla_reservas \<Rightarrow> celda \<Rightarrow> celda \<Rightarrow> nat \<Rightarrow> bool" where
  "arista_libre tr a b t \<longleftrightarrow> reserva_aristas tr (fst a, snd a, fst b, snd b, t) = None"

definition reservar_arista :: "tabla_reservas \<Rightarrow> nat \<Rightarrow> celda \<Rightarrow> celda \<Rightarrow> nat \<Rightarrow> tabla_reservas" where
  "reservar_arista tr rid a b t =
     tr\<lparr>reserva_aristas := (reserva_aristas tr)((fst a, snd a, fst b, snd b, t) \<mapsto> rid)\<rparr>"

definition puede_moverse :: "tabla_reservas \<Rightarrow> celda \<Rightarrow> celda \<Rightarrow> nat \<Rightarrow> bool" where
  "puede_moverse tr actual siguiente tick_siguiente =
     (if \<not> celda_libre tr siguiente tick_siguiente then False
      else if \<not> arista_libre tr siguiente actual tick_siguiente then False
      else True)"

definition confirmar_movimiento :: "tabla_reservas \<Rightarrow> nat \<Rightarrow> celda \<Rightarrow> celda \<Rightarrow> nat \<Rightarrow> tabla_reservas" where
  "confirmar_movimiento tr rid actual siguiente tick_siguiente =
     reservar_arista (reservar_celda tr rid siguiente tick_siguiente) rid actual siguiente tick_siguiente"

definition confirmar_espera :: "tabla_reservas \<Rightarrow> nat \<Rightarrow> celda \<Rightarrow> nat \<Rightarrow> tabla_reservas" where
  "confirmar_espera tr rid actual tick_siguiente = reservar_celda tr rid actual tick_siguiente"

section \<open>Simulator (sim\_core.py)\<close>

text \<open>
  The robot state is one of four string literals in the source. Ticks, counters, robot
  ids and list indices only ever start at 0 and grow, so they are naturals; coordinates
  and the ids and creation ticks read from the order list are Python integers.
  The fields \<open>pedido_id\<close>, \<open>anaquel_home\<close> and \<open>estacion_dock\<close> of \<open>Robot\<close> carry the
  prefix \<open>r_\<close> here, since \<open>Pedido\<close> and \<open>SimAlmacen\<close> have fields of the same names.
\<close>

datatype estado = INACTIVO | A_RECOGER | A_ESTACION | RETORNO

record pedido =
  pedido_id :: int
  anaquel_id :: int
  estacion_id :: int
  tick_creacion :: int
  tick_asignacion :: "nat option"
  tick_completado :: "nat option"

record robot =
  robot_id :: nat
  pos :: celda
  estado :: estado
  r_pedido_id :: "int option"
  r_anaquel_home :: "celda option"
  r_estacion_dock :: "celda option"
  ruta :: "celda list"
  idx_ruta :: nat
  ticks_espera :: nat
  celdas_movidas :: nat
  ticks_ocupado :: nat

record sim =
  grid :: grid
  estacion_dock :: "int \<rightharpoonup> celda"
  anaquel_home :: "int \<rightharpoonup> celda"
  pedidos :: "pedido list"
  seed :: int
  tick :: nat
  tabla :: tabla_reservas
  lista_robots :: "robot list"
  colisiones_vertice :: nat
  intercambios_arista :: nat
  conteo_deadlock :: nat
  eventos_alto :: nat
  pendientes :: "nat list"
  no_liberados :: "nat list"

text \<open>
  What a call can end with instead of a value: the exceptions the source can raise, and
  \<open>NoRetorna\<close> for a call of the planner that does not return.
\<close>

datatype fallo = RuntimeError | KeyError | IndexError | TypeError | NoRetorna

definition robot_nuevo :: "nat \<Rightarrow> celda \<Rightarrow> robot" where
  "robot_nuevo i p =
     \<lparr>robot_id = i, pos = p, estado = INACTIVO, r_pedido_id = None, r_anaquel_home = None,
      r_estacion_dock = None, ruta = [], idx_ruta = 0, ticks_espera = 0, celdas_movidas = 0,
      ticks_ocupado = 0\<rparr>"

text \<open>\<open>SimAlmacen.__init__\<close>. \<open>sorted\<close> is stable, as is \<open>sort_key\<close>.\<close>

definition crear ::
  "grid \<Rightarrow> (int \<rightharpoonup> celda) \<Rightarrow> (int \<rightharpoonup> celda) \<Rightarrow> int \<Rightarrow> celda list \<Rightarrow> pedido list \<Rightarrow> int \<Rightarrow> fallo + sim" where
  "crear g ed ah robots puntos_spawn peds sd =
     (if int (length puntos_spawn) < robots then Inl RuntimeError
      else
        let rs = map (\<lambda>i. robot_nuevo i (puntos_spawn ! i)) [0 ..< nat robots];
            tr = fold (\<lambda>r tr. confirmar_espera tr (robot_id r) (pos r) 0) rs tabla_vacia
        in Inr \<lparr>grid = g, estacion_dock = ed, anaquel_home = ah, pedidos = peds, seed = sd,
                tick = 0, tabla = tr, lista_robots = rs, colisiones_vertice = 0,
                intercambios_arista = 0, conteo_deadlock = 0, eventos_alto = 0,
                pendientes = [],
                no_liberados = sort_key (\<lambda>i. tick_creacion (peds ! i)) [0 ..< length peds]\<rparr>)"

text \<open>\<open>_liberar_pedidos\<close>: the loop pops the front of \<open>no_liberados\<close> while it is due.\<close>

fun liberar :: "pedido list \<Rightarrow> nat \<Rightarrow> nat list \<Rightarrow> nat list \<Rightarrow> fallo + nat list \<times> nat list" where
  "liberar peds t [] pend = Inr ([], pend)"
| "liberar peds t (idx # nl) pend =
     (if length peds \<le> idx then Inl IndexError
      else if tick_creacion (peds ! idx) \<le> int t then liberar peds t nl (pend @ [idx])
      else Inr (idx # nl, pend))"

definition liberar_pedidos :: "sim \<Rightarrow> fallo + sim" where
  "liberar_pedidos s =
     (case liberar (pedidos s) (tick s) (no_liberados s) (pendientes s) of
        Inl e \<Rightarrow> Inl e
      | Inr (nl, pend) \<Rightarrow> Inr (s\<lparr>no_liberados := nl, pendientes := pend\<rparr>))"

definition celdas_adyacentes :: "celda \<Rightarrow> celda list" where
  "celdas_adyacentes c = [(fst c + 1, snd c), (fst c - 1, snd c), (fst c, snd c + 1), (fst c, snd c - 1)]"

definition elegir_objetivo_adyacente :: "grid \<Rightarrow> celda \<Rightarrow> celda option" where
  "elegir_objetivo_adyacente g celda_anaquel =
     find (\<lambda>c. en_rango g (fst c) (snd c) \<and>
                (valor g (fst c) (snd c) = LIBRE \<or> valor g (fst c) (snd c) = ESTACION))
       (celdas_adyacentes celda_anaquel)"

text \<open>The scan of \<open>_asignar_pedidos\<close> over the head of the pending queue.\<close>

fun elegir_mejor :: "sim \<Rightarrow> celda \<Rightarrow> nat list \<Rightarrow> nat option \<Rightarrow> int \<Rightarrow> fallo + nat option" where
  "elegir_mejor s rpos [] mejor_idx mejor_dist = Inr mejor_idx"
| "elegir_mejor s rpos (pi # cola) mejor_idx mejor_dist =
     (if length (pedidos s) \<le> pi then Inl IndexError
      else
        case anaquel_home s (anaquel_id (pedidos s ! pi)) of
          None \<Rightarrow> Inl KeyError
        | Some anaquel \<Rightarrow>
            (case elegir_objetivo_adyacente (grid s) anaquel of
               None \<Rightarrow> elegir_mejor s rpos cola mejor_idx mejor_dist
             | Some pickup \<Rightarrow>
                 let dist = \<bar>fst rpos - fst pickup\<bar> + \<bar>snd rpos - snd pickup\<bar> in
                 if dist < mejor_dist then elegir_mejor s rpos cola (Some pi) dist
                 else elegir_mejor s rpos cola mejor_idx mejor_dist))"

text \<open>The two "revertir asignacion" branches do the same six assignments.\<close>

definition revertir :: "sim \<Rightarrow> nat \<Rightarrow> nat \<Rightarrow> sim" where
  "revertir s i mejor_idx =
     s\<lparr>lista_robots := (lista_robots s)
          [i := (lista_robots s ! i)\<lparr>estado := INACTIVO, r_pedido_id := None,
                                     r_anaquel_home := None, r_estacion_dock := None\<rparr>],
       pedidos := (pedidos s)[mejor_idx := (pedidos s ! mejor_idx)\<lparr>tick_asignacion := None\<rparr>],
       pendientes := pendientes s @ [mejor_idx]\<rparr>"

text \<open>The body of the loop of \<open>_asignar_pedidos\<close> for the idle robot at index \<open>i\<close>.\<close>

definition asignar_robot :: "sim \<Rightarrow> nat \<Rightarrow> fallo + sim" where
  "asignar_robot s i =
     (case elegir_mejor s (pos (lista_robots s ! i))
             (take (min 50 (length (pendientes s))) (pendientes s)) None (10 ^ 9) of
        Inl e \<Rightarrow> Inl e
      | Inr None \<Rightarrow> Inr s
      | Inr (Some mejor_idx) \<Rightarrow>
          let p = pedidos s ! mejor_idx;
              s1 = s\<lparr>pedidos := (pedidos s)[mejor_idx := p\<lparr>tick_asignacion := Some (tick s)\<rparr>],
                     pendientes := remove1 mejor_idx (pendientes s)\<rparr>
          in
            case anaquel_home s (anaquel_id p) of
              None \<Rightarrow> Inl KeyError
            | Some ah \<Rightarrow>
                (case estacion_dock s (estacion_id p) of
                   None \<Rightarrow> Inl KeyError
                 | Some ed \<Rightarrow>
                     let r = (lista_robots s ! i)
                               \<lparr>r_pedido_id := Some (pedido_id p), r_anaquel_home := Some ah,
                                r_estacion_dock := Some ed, estado := A_RECOGER\<rparr>;
                         s2 = s1\<lparr>lista_robots := (lista_robots s1)[i := r]\<rparr>
                     in
                       case elegir_objetivo_adyacente (grid s) ah of
                         None \<Rightarrow> Inr (revertir s2 i mejor_idx)
                       | Some pickup \<Rightarrow>
                           (case a_estrella (grid s) (pos r) pickup of
                              None \<Rightarrow> Inl NoRetorna
                            | Some None \<Rightarrow> Inr (revertir s2 i mejor_idx)
                            | Some (Some rt) \<Rightarrow>
                                Inr (s2\<lparr>lista_robots :=
                                          (lista_robots s2)[i := r\<lparr>ruta := rt, idx_ruta := 0\<rparr>]\<rparr>))))"

fun asignar_bucle :: "sim \<Rightarrow> nat list \<Rightarrow> fallo + sim" where
  "asignar_bucle s [] = Inr s"
| "asignar_bucle s (i # inactivos) =
     (if pendientes s = [] then Inr s
      else case asignar_robot s i of
             Inl e \<Rightarrow> Inl e
           | Inr s' \<Rightarrow> asignar_bucle s' inactivos)"

definition asignar_pedidos :: "sim \<Rightarrow> fallo + sim" where
  "asignar_pedidos s =
     (let inactivos = filter (\<lambda>i. estado (lista_robots s ! i) = INACTIVO) [0 ..< length (lista_robots s)] in
      if inactivos = [] \<or> pendientes s = [] then Inr s
      else asignar_bucle s inactivos)"

fun completar_pedido :: "pedido list \<Rightarrow> int \<Rightarrow> nat \<Rightarrow> pedido list" where
  "completar_pedido [] pid t = []"
| "completar_pedido (p # ps) pid t =
     (if pedido_id p = pid then p\<lparr>tick_completado := Some t\<rparr> # ps
      else p # completar_pedido ps pid t)"

definition poner_robot :: "sim \<Rightarrow> nat \<Rightarrow> robot \<Rightarrow> sim" where
  "poner_robot s i r = s\<lparr>lista_robots := (lista_robots s)[i := r]\<rparr>"

text \<open>\<open>_planear_siguiente_tramo_si_llego\<close> for the robot at index \<open>i\<close>.\<close>

definition planear_siguiente_tramo_si_llego :: "sim \<Rightarrow> nat \<Rightarrow> fallo + sim" where
  "planear_siguiente_tramo_si_llego s i =
     (let r = lista_robots s ! i in
      if ruta r = [] \<or> idx_ruta r \<noteq> length (ruta r) - 1 then Inr s
      else
        case estado r of
          A_RECOGER \<Rightarrow>
            (case r_estacion_dock r of
               None \<Rightarrow> Inl TypeError
             | Some dock \<Rightarrow>
                 (case a_estrella (grid s) (pos r) dock of
                    None \<Rightarrow> Inl NoRetorna
                  | Some None \<Rightarrow> Inr (poner_robot s i (r\<lparr>estado := A_RECOGER\<rparr>))
                  | Some (Some rt) \<Rightarrow>
                      Inr (poner_robot s i (r\<lparr>estado := A_ESTACION, ruta := rt, idx_ruta := 0\<rparr>))))
        | A_ESTACION \<Rightarrow>
            (case (case r_anaquel_home r of
                     None \<Rightarrow> None
                   | Some ah \<Rightarrow> elegir_objetivo_adyacente (grid s) ah) of
               None \<Rightarrow> Inr (poner_robot s i (r\<lparr>estado := A_ESTACION\<rparr>))
             | Some pickup \<Rightarrow>
                 (case a_estrella (grid s) (pos r) pickup of
                    None \<Rightarrow> Inl NoRetorna
                  | Some None \<Rightarrow> Inr (poner_robot s i (r\<lparr>estado := A_ESTACION\<rparr>))
                  | Some (Some rt) \<Rightarrow>
                      Inr (poner_robot s i (r\<lparr>estado := RETORNO, ruta := rt, idx_ruta := 0\<rparr>))))
        | RETORNO \<Rightarrow>
            Inr (poner_robot
                   (s\<lparr>pedidos := (case r_pedido_id r of
                                     None \<Rightarrow> pedidos s
                                   | Some pid \<Rightarrow> completar_pedido (pedidos s) pid (tick s))\<rparr>)
                   i
                   (r\<lparr>estado := INACTIVO, r_pedido_id := None, r_anaquel_home := None,
                      r_estacion_dock := None, ruta := [], idx_ruta := 0\<rparr>))
        | INACTIVO \<Rightarrow> Inr s)"

text \<open>The first loop of \<open>step\<close>: busy accounting, leg transition, proposal.\<close>

definition propuesta_de :: "robot \<Rightarrow> celda" where
  "propuesta_de r =
     (if estado r = INACTIVO \<or> ruta r = [] then pos r
      else if idx_ruta r < length (ruta r) - 1 then ruta r ! (idx_ruta r + 1)
      else pos r)"

fun proponer :: "sim \<Rightarrow> (nat \<rightharpoonup> celda) \<Rightarrow> nat list \<Rightarrow> fallo + sim \<times> (nat \<rightharpoonup> celda)" where
  "proponer s propuestas [] = Inr (s, propuestas)"
| "proponer s propuestas (i # is) =
     (let r = lista_robots s ! i;
          s1 = (if estado r \<noteq> INACTIVO
                then poner_robot s i (r\<lparr>ticks_ocupado := ticks_ocupado r + 1\<rparr>) else s)
      in case planear_siguiente_tramo_si_llego s1 i of
           Inl e \<Rightarrow> Inl e
         | Inr s2 \<Rightarrow>
             proponer s2 (propuestas(robot_id (lista_robots s2 ! i) \<mapsto> propuesta_de (lista_robots s2 ! i))) is)"

text \<open>The second loop of \<open>step\<close>: robots in list order against the reservation table.\<close>

fun resolver :: "sim \<Rightarrow> (nat \<rightharpoonup> celda) \<Rightarrow> bool \<Rightarrow> nat list \<Rightarrow> fallo + sim \<times> bool" where
  "resolver s propuestas movio_alguien [] = Inr (s, movio_alguien)"
| "resolver s propuestas movio_alguien (i # is) =
     (let r = lista_robots s ! i; actual = pos r; tick_siguiente = tick s + 1 in
      case propuestas (robot_id r) of
        None \<Rightarrow> Inl KeyError
      | Some siguiente \<Rightarrow>
          if siguiente = actual
          then resolver (s\<lparr>tabla := confirmar_espera (tabla s) (robot_id r) actual tick_siguiente\<rparr>)
                 propuestas movio_alguien is
          else if puede_moverse (tabla s) actual siguiente tick_siguiente
          then resolver
                 (poner_robot
                    (s\<lparr>tabla := confirmar_movimiento (tabla s) (robot_id r) actual siguiente tick_siguiente\<rparr>)
                    i (r\<lparr>pos := siguiente, idx_ruta := idx_ruta r + 1,
                         celdas_movidas := celdas_movidas r + 1\<rparr>))
                 propuestas True is
          else resolver
                 (poner_robot
                    (s\<lparr>eventos_alto := eventos_alto s + 1,
                       tabla := confirmar_espera (tabla s) (robot_id r) actual tick_siguiente\<rparr>)
                    i (r\<lparr>ticks_espera := ticks_espera r + 1\<rparr>))
                 propuestas movio_alguien is)"

definition paso :: "sim \<Rightarrow> fallo + sim" where
  "paso s =
     (case liberar_pedidos s of
        Inl e \<Rightarrow> Inl e
      | Inr s1 \<Rightarrow>
          (case asignar_pedidos s1 of
             Inl e \<Rightarrow> Inl e
           | Inr s2 \<Rightarrow>
               (case proponer s2 Map.empty [0 ..< length (lista_robots s2)] of
                  Inl e \<Rightarrow> Inl e
                | Inr (s3, propuestas) \<Rightarrow>
                    (case resolver s3 propuestas False [0 ..< length (lista_robots s3)] of
                       Inl e \<Rightarrow> Inl e
                     | Inr (s4, movio_alguien) \<Rightarrow>
                         Inr (s4\<lparr>conteo_deadlock :=
                                   (if \<not> movio_alguien \<and> list_ex (\<lambda>r. estado r \<noteq> INACTIVO) (lista_robots s4)
                                    then conteo_deadlock s4 + 1 else conteo_deadlock s4),
                                 tick := tick s4 + 1\<rparr>)))))"

fun run :: "nat \<Rightarrow> sim \<Rightarrow> fallo + sim" where
  "run 0 s = Inr s"
| "run (Suc n) s = (case paso s of Inl e \<Rightarrow> Inl e | Inr s' \<Rightarrow> run n s')"


subsection \<open>Construction\<close>

definition reservas_iniciales :: "celda list \<Rightarrow> nat \<Rightarrow> tabla_reservas" where
  "reservas_iniciales puntos_spawn n =
     fold (\<lambda>r tr. confirmar_espera tr (robot_id r) (pos r) 0)
       (map (\<lambda>i. robot_nuevo i (puntos_spawn ! i)) [0 ..< n]) tabla_vacia"

lemma reservas_iniciales_Suc:
  "reservas_iniciales sp (Suc n) = confirmar_espera (reservas_iniciales sp n) n (sp ! n) 0"
  by (simp add: reservas_iniciales_def robot_nuevo_def)

lemma reservas_iniciales_celdas:
  "reserva_celdas (reservas_iniciales sp n) (x, y, t) = Some k \<longleftrightarrow>
     t = 0 \<and> k < n \<and> sp ! k = (x, y) \<and> (\<forall>j. k < j \<and> j < n \<longrightarrow> sp ! j \<noteq> (x, y))"
proof (induction n arbitrary: k)
  case 0
  then show ?case by (simp add: reservas_iniciales_def tabla_vacia_def)
next
  case (Suc n)
  show ?case
  proof (cases "t = 0 \<and> sp ! n = (x, y)")
    case True
    then have "reserva_celdas (reservas_iniciales sp (Suc n)) (x, y, t) = Some n"
      by (simp add: reservas_iniciales_Suc confirmar_espera_def reservar_celda_def)
    moreover have "(t = 0 \<and> k < Suc n \<and> sp ! k = (x, y) \<and> (\<forall>j. k < j \<and> j < Suc n \<longrightarrow> sp ! j \<noteq> (x, y))) \<longleftrightarrow> k = n"
      using True by (auto simp: less_Suc_eq)
    ultimately show ?thesis by auto
  next
    case False
    then have "reserva_celdas (reservas_iniciales sp (Suc n)) (x, y, t)
        = reserva_celdas (reservas_iniciales sp n) (x, y, t)"
      by (cases "sp ! n") (auto simp: reservas_iniciales_Suc confirmar_espera_def reservar_celda_def)
    moreover have "(t = 0 \<and> k < Suc n \<and> sp ! k = (x, y) \<and> (\<forall>j. k < j \<and> j < Suc n \<longrightarrow> sp ! j \<noteq> (x, y)))
        \<longleftrightarrow> (t = 0 \<and> k < n \<and> sp ! k = (x, y) \<and> (\<forall>j. k < j \<and> j < n \<longrightarrow> sp ! j \<noteq> (x, y)))"
      using False by (auto simp: less_Suc_eq)
    ultimately show ?thesis using Suc.IH [of k] by simp
  qed
qed

lemma crear_error:
  "crear g ed ah robots sp peds sd = Inl e \<longleftrightarrow> e = RuntimeError \<and> int (length sp) < robots"
  by (auto simp: crear_def Let_def)

lemma crear_ok:
  assumes "crear g ed ah robots sp peds sd = Inr s"
  shows "lista_robots s = map (\<lambda>i. robot_nuevo i (sp ! i)) [0 ..< nat robots]"
    and "tabla s = reservas_iniciales sp (nat robots)"
    and "grid s = g" and "tick s = 0" and "pedidos s = peds" and "pendientes s = []"
    and "estacion_dock s = ed" and "anaquel_home s = ah" and "seed s = sd"
    and "no_liberados s = sort_key (\<lambda>i. tick_creacion (peds ! i)) [0 ..< length peds]"
    and "conteo_deadlock s = 0" and "eventos_alto s = 0"
    and "colisiones_vertice s = 0" and "intercambios_arista s = 0"
  using assms by (auto simp: crear_def Let_def reservas_iniciales_def split: if_splits)

definition grid_c10 :: grid where
  "grid_c10 = [[0, 1]]"

text \<open>
  Claim C10. Construction fails only when the spawn list is shorter than the robot count.
  Otherwise it succeeds whatever the cells are: robot \<open>i\<close> gets id \<open>i\<close> and starts at
  \<open>puntos_spawn[i]\<close>, so two robots given the same cell both start there, and the
  tick-0 reservation of a cell names the last robot spawned on it, the earlier entries
  having been overwritten.
\<close>

theorem C10_crear_solo_cuenta:
  "(\<forall>e. crear g ed ah robots sp peds sd = Inl e \<longleftrightarrow> e = RuntimeError \<and> int (length sp) < robots) \<and>
   (robots \<le> int (length sp) \<longrightarrow>
      (\<exists>s. crear g ed ah robots sp peds sd = Inr s \<and>
           map pos (lista_robots s) = take (nat robots) sp \<and>
           map robot_id (lista_robots s) = [0 ..< nat robots] \<and>
           tick s = 0 \<and>
           (\<forall>i j. i < j \<and> j < nat robots \<and> sp ! i = sp ! j \<longrightarrow>
              pos (lista_robots s ! i) = pos (lista_robots s ! j) \<and>
              reserva_celdas (tabla s) (fst (sp ! i), snd (sp ! i), 0) \<noteq> Some i) \<and>
           (\<forall>x y k. reserva_celdas (tabla s) (x, y, 0) = Some k \<longleftrightarrow>
              k < nat robots \<and> sp ! k = (x, y) \<and> (\<forall>j. k < j \<and> j < nat robots \<longrightarrow> sp ! j \<noteq> (x, y)))))"
proof (intro conjI allI impI)
  fix e show "crear g ed ah robots sp peds sd = Inl e \<longleftrightarrow> e = RuntimeError \<and> int (length sp) < robots"
    by (rule crear_error)
next
  assume le: "robots \<le> int (length sp)"
  then obtain s where s: "crear g ed ah robots sp peds sd = Inr s"
    by (cases "crear g ed ah robots sp peds sd") (auto simp: crear_error)
  note ok = crear_ok [OF s]
  have n: "nat robots \<le> length sp" using le by simp
  have p: "map pos (lista_robots s) = take (nat robots) sp"
    using n by (auto simp: ok(1) robot_nuevo_def intro!: nth_equalityI)
  have i: "map robot_id (lista_robots s) = [0 ..< nat robots]"
    by (auto simp: ok(1) robot_nuevo_def intro!: nth_equalityI)
  have c: "reserva_celdas (tabla s) (x, y, 0) = Some k \<longleftrightarrow>
      k < nat robots \<and> sp ! k = (x, y) \<and> (\<forall>j. k < j \<and> j < nat robots \<longrightarrow> sp ! j \<noteq> (x, y))" for x y k
    unfolding ok(2) reservas_iniciales_celdas by simp
  have d: "pos (lista_robots s ! i) = pos (lista_robots s ! j) \<and>
      reserva_celdas (tabla s) (fst (sp ! i), snd (sp ! i), 0) \<noteq> Some i"
    if "i < j \<and> j < nat robots \<and> sp ! i = sp ! j" for i j
  proof
    show "pos (lista_robots s ! i) = pos (lista_robots s ! j)"
      using that by (simp add: ok(1) robot_nuevo_def)
    show "reserva_celdas (tabla s) (fst (sp ! i), snd (sp ! i), 0) \<noteq> Some i"
      using that c [of "fst (sp ! i)" "snd (sp ! i)" i] by auto
  qed
  show "\<exists>s. crear g ed ah robots sp peds sd = Inr s \<and>
           map pos (lista_robots s) = take (nat robots) sp \<and>
           map robot_id (lista_robots s) = [0 ..< nat robots] \<and>
           tick s = 0 \<and>
           (\<forall>i j. i < j \<and> j < nat robots \<and> sp ! i = sp ! j \<longrightarrow>
              pos (lista_robots s ! i) = pos (lista_robots s ! j) \<and>
              reserva_celdas (tabla s) (fst (sp ! i), snd (sp ! i), 0) \<noteq> Some i) \<and>
           (\<forall>x y k. reserva_celdas (tabla s) (x, y, 0) = Some k \<longleftrightarrow>
              k < nat robots \<and> sp ! k = (x, y) \<and> (\<forall>j. k < j \<and> j < nat robots \<longrightarrow> sp ! j \<noteq> (x, y)))"
    using s p i ok(4) c d by blast
qed

theorem C10_crear_solo_cuenta_testigo:
  "(2::int) \<le> int (length [(1, 0), (1, 0) :: celda]) \<and>
   \<not> libre grid_c10 (1, 0) \<and>
   (\<exists>s. crear grid_c10 Map.empty Map.empty 2 [(1, 0), (1, 0)] [] 0 = Inr s \<and>
        map pos (lista_robots s) = [(1, 0), (1, 0)] \<and>
        map robot_id (lista_robots s) = [0, 1] \<and>
        reserva_celdas (tabla s) (1, 0, 0) = Some 1) \<and>
   crear grid_c10 Map.empty Map.empty 3 [(1, 0), (1, 0)] [] 0 = Inl RuntimeError"
proof -
  have l: "(2::int) \<le> int (length [(1, 0), (1, 0) :: celda])" by simp
  have nl: "\<not> libre grid_c10 (1, 0)" by code_simp
  from C10_crear_solo_cuenta [of grid_c10 Map.empty Map.empty 2 "[(1, 0), (1, 0)]" "[]" 0] l
  obtain s where s: "crear grid_c10 Map.empty Map.empty 2 [(1, 0), (1, 0)] [] 0 = Inr s"
    "map pos (lista_robots s) = take (nat 2) [(1, 0), (1, 0)]"
    "map robot_id (lista_robots s) = [0 ..< nat 2]"
    "\<forall>x y k. reserva_celdas (tabla s) (x, y, 0) = Some k \<longleftrightarrow>
        k < nat 2 \<and> [(1, 0), (1, 0) :: celda] ! k = (x, y) \<and> (\<forall>j. k < j \<and> j < nat 2 \<longrightarrow> [(1, 0), (1, 0) :: celda] ! j \<noteq> (x, y))"
    by blast
  have "(1::nat) < nat 2 \<and> [(1, 0), (1, 0) :: celda] ! 1 = (1, 0) \<and>
      (\<forall>j. 1 < j \<and> j < nat 2 \<longrightarrow> [(1, 0), (1, 0) :: celda] ! j \<noteq> (1, 0))"
    by auto
  with s(4) have "reserva_celdas (tabla s) (1, 0, 0) = Some 1" by blast
  moreover have "map robot_id (lista_robots s) = [0, 1]"
    using s(3) by (simp add: numeral_2_eq_2)
  moreover have "map pos (lista_robots s) = [(1, 0), (1, 0)]"
    using s(2) by simp
  moreover from C10_crear_solo_cuenta [of grid_c10 Map.empty Map.empty 3 "[(1, 0), (1, 0)]" "[]" 0]
  have "crear grid_c10 Map.empty Map.empty 3 [(1, 0), (1, 0)] [] 0 = Inl RuntimeError" by simp
  ultimately show ?thesis using l nl s(1) by (intro conjI exI [of _ s]) simp_all
qed

subsection \<open>The resolve loop\<close>

text \<open>One iteration of the resolve loop, named for the proofs.\<close>

definition resolver_uno :: "sim \<Rightarrow> (nat \<rightharpoonup> celda) \<Rightarrow> bool \<Rightarrow> nat \<Rightarrow> fallo + sim \<times> bool" where
  "resolver_uno s propuestas movio_alguien i =
     (let r = lista_robots s ! i; actual = pos r; tick_siguiente = tick s + 1 in
      case propuestas (robot_id r) of
        None \<Rightarrow> Inl KeyError
      | Some siguiente \<Rightarrow>
          if siguiente = actual
          then Inr (s\<lparr>tabla := confirmar_espera (tabla s) (robot_id r) actual tick_siguiente\<rparr>,
                    movio_alguien)
          else if puede_moverse (tabla s) actual siguiente tick_siguiente
          then Inr (poner_robot
                      (s\<lparr>tabla := confirmar_movimiento (tabla s) (robot_id r) actual siguiente tick_siguiente\<rparr>)
                      i (r\<lparr>pos := siguiente, idx_ruta := idx_ruta r + 1,
                           celdas_movidas := celdas_movidas r + 1\<rparr>),
                    True)
          else Inr (poner_robot
                      (s\<lparr>eventos_alto := eventos_alto s + 1,
                         tabla := confirmar_espera (tabla s) (robot_id r) actual tick_siguiente\<rparr>)
                      i (r\<lparr>ticks_espera := ticks_espera r + 1\<rparr>),
                    movio_alguien))"

lemma resolver_Cons:
  "resolver s pr m (i # is) =
     (case resolver_uno s pr m i of Inl e \<Rightarrow> Inl e | Inr (s1, m1) \<Rightarrow> resolver s1 pr m1 is)"
  by (simp add: resolver_uno_def Let_def split: option.splits)

declare resolver.simps(2) [simp del]

definition pos_de :: "sim \<Rightarrow> nat \<Rightarrow> celda" where
  "pos_de s i = pos (lista_robots s ! i)"

definition arista_reservada :: "sim \<Rightarrow> celda \<Rightarrow> celda \<Rightarrow> bool" where
  "arista_reservada s a b \<longleftrightarrow> \<not> arista_libre (tabla s) a b (tick s + 1)"

lemma map_update_mismo: "(map f xs)[i := f (xs ! i)] = map f xs"
  by (metis list_update_id map_update)

lemma resolver_uno_marco:
  assumes "resolver_uno s pr m i = Inr (s1, m1)"
  shows "length (lista_robots s1) = length (lista_robots s)"
    and "tick s1 = tick s" and "grid s1 = grid s" and "pedidos s1 = pedidos s"
    and "pendientes s1 = pendientes s" and "no_liberados s1 = no_liberados s"
    and "conteo_deadlock s1 = conteo_deadlock s"
    and "map estado (lista_robots s1) = map estado (lista_robots s)"
    and "k \<noteq> i \<Longrightarrow> lista_robots s1 ! k = lista_robots s ! k"
    and "arista_reservada s a b \<Longrightarrow> arista_reservada s1 a b"
  using assms
  by (auto simp: resolver_uno_def Let_def poner_robot_def arista_reservada_def arista_libre_def
      confirmar_espera_def confirmar_movimiento_def reservar_celda_def reservar_arista_def
      map_update map_update_mismo
      split: option.splits if_splits)

lemma resolver_uno_mueve:
  assumes "resolver_uno s pr m i = Inr (s1, m1)" and "i < length (lista_robots s)"
  shows "m1 \<longleftrightarrow> m \<or> pos_de s1 i \<noteq> pos_de s i"
    and "pos_de s1 i \<noteq> pos_de s i \<Longrightarrow>
           arista_reservada s1 (pos_de s i) (pos_de s1 i) \<and> \<not> arista_reservada s (pos_de s1 i) (pos_de s i)"
  using assms
  by (auto simp: resolver_uno_def Let_def poner_robot_def arista_reservada_def arista_libre_def
      confirmar_espera_def confirmar_movimiento_def reservar_celda_def reservar_arista_def
      puede_moverse_def pos_de_def
      split: option.splits if_splits)

lemma resolver_marco:
  "resolver s pr m is = Inr (s', m') \<Longrightarrow>
     length (lista_robots s') = length (lista_robots s) \<and> tick s' = tick s \<and> grid s' = grid s \<and>
     pedidos s' = pedidos s \<and> pendientes s' = pendientes s \<and> no_liberados s' = no_liberados s \<and>
     conteo_deadlock s' = conteo_deadlock s \<and>
     map estado (lista_robots s') = map estado (lista_robots s) \<and>
     (\<forall>k. k \<notin> set is \<longrightarrow> lista_robots s' ! k = lista_robots s ! k) \<and>
     (\<forall>a b. arista_reservada s a b \<longrightarrow> arista_reservada s' a b)"
proof (induction "is" arbitrary: s m)
  case Nil
  then show ?case by simp
next
  case (Cons i "is")
  from Cons.prems obtain s1 m1 where u: "resolver_uno s pr m i = Inr (s1, m1)"
    and r: "resolver s1 pr m1 is = Inr (s', m')"
    by (auto simp: resolver_Cons split: sum.splits)
  note f = resolver_uno_marco [OF u]
  from Cons.IH [OF r] f show ?case by auto
qed

lemma resolver_movio:
  "resolver s pr m is = Inr (s', m') \<Longrightarrow> distinct is \<Longrightarrow> \<forall>i \<in> set is. i < length (lista_robots s) \<Longrightarrow>
     (m' \<longleftrightarrow> m \<or> (\<exists>i \<in> set is. pos_de s' i \<noteq> pos_de s i))"
proof (induction "is" arbitrary: s m)
  case Nil
  then show ?case by simp
next
  case (Cons i "is")
  from Cons.prems(1) obtain s1 m1 where u: "resolver_uno s pr m i = Inr (s1, m1)"
    and r: "resolver s1 pr m1 is = Inr (s', m')"
    by (auto simp: resolver_Cons split: sum.splits)
  note f = resolver_uno_marco [OF u]
  from Cons.prems have i: "i < length (lista_robots s)" "i \<notin> set is" "distinct is"
    and b: "\<forall>k \<in> set is. k < length (lista_robots s1)"
    by (simp_all add: f(1))
  note mv = resolver_uno_mueve(1) [OF u i(1)]
  note g = resolver_marco [OF r]
  have pi: "pos_de s' i = pos_de s1 i" using g i(2) by (simp add: pos_de_def)
  have pk: "pos_de s1 k = pos_de s k" if "k \<in> set is" for k
  proof -
    from that i(2) have "k \<noteq> i" by blast
    then show ?thesis by (simp add: pos_de_def f(9))
  qed
  from Cons.IH [OF r i(3) b]
  have "m' \<longleftrightarrow> m1 \<or> (\<exists>k \<in> set is. pos_de s' k \<noteq> pos_de s1 k)" .
  with mv pi pk show ?case by auto
qed

text \<open>A robot standing on \<open>v\<close> never enters \<open>u\<close> once the edge from \<open>u\<close> to \<open>v\<close> is booked.\<close>

lemma resolver_no_entra:
  "resolver s pr m is = Inr (s', m') \<Longrightarrow> distinct is \<Longrightarrow> \<forall>i \<in> set is. i < length (lista_robots s) \<Longrightarrow>
     j \<in> set is \<Longrightarrow> pos_de s j = v \<Longrightarrow> arista_reservada s u v \<Longrightarrow> u \<noteq> v \<Longrightarrow> pos_de s' j \<noteq> u"
proof (induction "is" arbitrary: s m)
  case Nil
  then show ?case by simp
next
  case (Cons i "is")
  from Cons.prems(1) obtain s1 m1 where u: "resolver_uno s pr m i = Inr (s1, m1)"
    and r: "resolver s1 pr m1 is = Inr (s', m')"
    by (auto simp: resolver_Cons split: sum.splits)
  note f = resolver_uno_marco [OF u]
  from Cons.prems have i: "i < length (lista_robots s)" "i \<notin> set is" "distinct is"
    and b: "\<forall>k \<in> set is. k < length (lista_robots s1)"
    by (simp_all add: f(1))
  note g = resolver_marco [OF r]
  have e1: "arista_reservada s1 u v" using f(10) Cons.prems(6) by blast
  show ?case
  proof (cases "j = i")
    case True
    have "pos_de s' j = pos_de s1 i" using g i(2) True by (simp add: pos_de_def)
    moreover have "pos_de s1 i \<noteq> u"
    proof
      assume a: "pos_de s1 i = u"
      with Cons.prems(5,7) True have "pos_de s1 i \<noteq> pos_de s i" by simp
      from resolver_uno_mueve(2) [OF u i(1) this] a Cons.prems(5) True
      have "\<not> arista_reservada s u v" by simp
      with Cons.prems(6) show False by simp
    qed
    ultimately show ?thesis by simp
  next
    case False
    with Cons.prems(4) have j: "j \<in> set is" by simp
    have "pos_de s1 j = v" using f(9) [of j] False Cons.prems(5) by (simp add: pos_de_def)
    from Cons.IH [OF r i(3) b j this e1 Cons.prems(7)] show ?thesis .
  qed
qed

lemma resolver_sin_intercambio:
  "resolver s pr m is = Inr (s', m') \<Longrightarrow> distinct is \<Longrightarrow> \<forall>i \<in> set is. i < length (lista_robots s) \<Longrightarrow>
     i \<in> set is \<Longrightarrow> j \<in> set is \<Longrightarrow> i \<noteq> j \<Longrightarrow> pos_de s i \<noteq> pos_de s j \<Longrightarrow>
     \<not> (pos_de s' i = pos_de s j \<and> pos_de s' j = pos_de s i)"
proof (induction "is" arbitrary: s m)
  case Nil
  then show ?case by simp
next
  case (Cons h "is")
  from Cons.prems(1) obtain s1 m1 where u: "resolver_uno s pr m h = Inr (s1, m1)"
    and r: "resolver s1 pr m1 is = Inr (s', m')"
    by (auto simp: resolver_Cons split: sum.splits)
  note f = resolver_uno_marco [OF u]
  from Cons.prems have h: "h < length (lista_robots s)" "h \<notin> set is" "distinct is"
    and b: "\<forall>k \<in> set is. k < length (lista_robots s1)"
    by (simp_all add: f(1))
  note g = resolver_marco [OF r]
  have primero: "\<not> (pos_de s' a = pos_de s c \<and> pos_de s' c = pos_de s a)"
    if a: "a = h" and c: "c \<in> set is" and d: "pos_de s a \<noteq> pos_de s c" for a c
  proof
    assume sw: "pos_de s' a = pos_de s c \<and> pos_de s' c = pos_de s a"
    have "pos_de s' a = pos_de s1 h" using g h(2) a by (simp add: pos_de_def)
    with sw d a have mv: "pos_de s1 h \<noteq> pos_de s h" and to: "pos_de s1 h = pos_de s c" by simp_all
    from resolver_uno_mueve(2) [OF u h(1) mv] to
    have e: "arista_reservada s1 (pos_de s h) (pos_de s c)" by simp
    have "c \<noteq> h" using c h(2) by blast
    then have pc: "pos_de s1 c = pos_de s c" using f(9) [of c] by (simp add: pos_de_def)
    from resolver_no_entra [OF r h(3) b c pc e] d a sw show False by simp
  qed
  show ?case
  proof (cases "i = h")
    case True
    with Cons.prems(5,6) have "j \<in> set is" by auto
    from primero [OF True this Cons.prems(7)] show ?thesis .
  next
    case ni: False
    show ?thesis
    proof (cases "j = h")
      case True
      with Cons.prems(4,6) have "i \<in> set is" by auto
      from primero [OF True this] Cons.prems(7) show ?thesis by auto
    next
      case nj: False
      from ni nj Cons.prems(4,5) have ij: "i \<in> set is" "j \<in> set is" by auto
      have "pos_de s1 i = pos_de s i" "pos_de s1 j = pos_de s j"
        using f(9) [of i] f(9) [of j] ni nj by (simp_all add: pos_de_def)
      with Cons.IH [OF r h(3) b ij Cons.prems(6)] Cons.prems(7) show ?thesis by simp
    qed
  qed
qed

subsection \<open>The assignment step in closed form\<close>

lemma elegir_mejor_en_cola:
  "elegir_mejor s rp ps mi md = Inr (Some m) \<Longrightarrow>
     mi = Some m \<or> (m \<in> set ps \<and> m < length (pedidos s))"
proof (induction ps arbitrary: mi md)
  case Nil
  then show ?case by simp
next
  case (Cons a ps)
  from Cons.prems have a: "a < length (pedidos s)" by (auto split: if_splits)
  from Cons.prems Cons.IH [of mi md] Cons.IH [of "Some a"] a show ?case
    by (auto simp: Let_def split: if_splits option.splits)
qed

text \<open>The state after a failed attempt, and after a successful one.\<close>

definition devuelto :: "sim \<Rightarrow> nat \<Rightarrow> nat \<Rightarrow> sim" where
  "devuelto s i mejor_idx =
     s\<lparr>lista_robots := (lista_robots s)
          [i := (lista_robots s ! i)\<lparr>estado := INACTIVO, r_pedido_id := None,
                                     r_anaquel_home := None, r_estacion_dock := None\<rparr>],
       pedidos := (pedidos s)[mejor_idx := (pedidos s ! mejor_idx)\<lparr>tick_asignacion := None\<rparr>],
       pendientes := remove1 mejor_idx (pendientes s) @ [mejor_idx]\<rparr>"

definition asignado :: "sim \<Rightarrow> nat \<Rightarrow> nat \<Rightarrow> celda \<Rightarrow> celda \<Rightarrow> celda list \<Rightarrow> sim" where
  "asignado s i mejor_idx ah ed rt =
     s\<lparr>lista_robots := (lista_robots s)
          [i := (lista_robots s ! i)\<lparr>r_pedido_id := Some (pedido_id (pedidos s ! mejor_idx)),
                                     r_anaquel_home := Some ah, r_estacion_dock := Some ed,
                                     estado := A_RECOGER, ruta := rt, idx_ruta := 0\<rparr>],
       pedidos := (pedidos s)[mejor_idx := (pedidos s ! mejor_idx)\<lparr>tick_asignacion := Some (tick s)\<rparr>],
       pendientes := remove1 mejor_idx (pendientes s)\<rparr>"

definition cabeza_cola :: "sim \<Rightarrow> nat list" where
  "cabeza_cola s = take (min 50 (length (pendientes s))) (pendientes s)"

lemma asignar_robot_eq:
  assumes "i < length (lista_robots s)"
  shows "asignar_robot s i =
     (case elegir_mejor s (pos (lista_robots s ! i)) (cabeza_cola s) None (10 ^ 9) of
        Inl e \<Rightarrow> Inl e
      | Inr None \<Rightarrow> Inr s
      | Inr (Some mejor_idx) \<Rightarrow>
          (case anaquel_home s (anaquel_id (pedidos s ! mejor_idx)) of
             None \<Rightarrow> Inl KeyError
           | Some ah \<Rightarrow>
               (case estacion_dock s (estacion_id (pedidos s ! mejor_idx)) of
                  None \<Rightarrow> Inl KeyError
                | Some ed \<Rightarrow>
                    (case elegir_objetivo_adyacente (grid s) ah of
                       None \<Rightarrow> Inr (devuelto s i mejor_idx)
                     | Some pickup \<Rightarrow>
                         (case a_estrella (grid s) (pos (lista_robots s ! i)) pickup of
                            None \<Rightarrow> Inl NoRetorna
                          | Some None \<Rightarrow> Inr (devuelto s i mejor_idx)
                          | Some (Some rt) \<Rightarrow> Inr (asignado s i mejor_idx ah ed rt))))))"
proof (cases "elegir_mejor s (pos (lista_robots s ! i)) (cabeza_cola s) None (10 ^ 9)")
  case (Inl e)
  then show ?thesis by (simp add: asignar_robot_def cabeza_cola_def)
next
  case (Inr mo)
  show ?thesis
  proof (cases mo)
    case None
    with Inr show ?thesis by (simp add: asignar_robot_def cabeza_cola_def)
  next
    case (Some m)
    with Inr elegir_mejor_en_cola [of s _ "cabeza_cola s" None _ m]
    have m: "m < length (pedidos s)" by simp
    have rv: "revertir (s\<lparr>pedidos := (pedidos s)[m := (pedidos s ! m)\<lparr>tick_asignacion := Some (tick s)\<rparr>],
                           pendientes := remove1 m (pendientes s),
                           lista_robots := (lista_robots s)[i := r]\<rparr>) i m
              = s\<lparr>lista_robots := (lista_robots s)
                     [i := r\<lparr>estado := INACTIVO, r_pedido_id := None,
                             r_anaquel_home := None, r_estacion_dock := None\<rparr>],
                   pedidos := (pedidos s)[m := (pedidos s ! m)\<lparr>tick_asignacion := None\<rparr>],
                   pendientes := remove1 m (pendientes s) @ [m]\<rparr>" for r
      using assms m by (simp add: revertir_def)
    show ?thesis
      using Inr Some assms m
      by (simp add: asignar_robot_def cabeza_cola_def [symmetric] Let_def rv devuelto_def asignado_def
          split: option.splits)
  qed
qed

subsection \<open>What the phases before the resolve loop leave alone\<close>

definition mismo_marco :: "sim \<Rightarrow> sim \<Rightarrow> bool" where
  "mismo_marco s s' \<longleftrightarrow>
     map pos (lista_robots s') = map pos (lista_robots s) \<and>
     map robot_id (lista_robots s') = map robot_id (lista_robots s) \<and>
     tick s' = tick s \<and> grid s' = grid s \<and> tabla s' = tabla s \<and>
     conteo_deadlock s' = conteo_deadlock s \<and> eventos_alto s' = eventos_alto s \<and>
     estacion_dock s' = estacion_dock s \<and> anaquel_home s' = anaquel_home s \<and> seed s' = seed s"

lemma mismo_marco_refl: "mismo_marco s s"
  by (simp add: mismo_marco_def)

lemma mismo_marco_trans: "mismo_marco s s1 \<Longrightarrow> mismo_marco s1 s2 \<Longrightarrow> mismo_marco s s2"
  by (simp add: mismo_marco_def)

lemma mismo_marco_length: "mismo_marco s s' \<Longrightarrow> length (lista_robots s') = length (lista_robots s)"
  unfolding mismo_marco_def by (metis length_map)

lemma mismo_marco_pos:
  assumes "mismo_marco s s'" "i < length (lista_robots s)"
  shows "pos_de s' i = pos_de s i"
proof -
  from assms(1) have "map pos (lista_robots s') ! i = map pos (lista_robots s) ! i"
    by (simp add: mismo_marco_def)
  with assms(2) mismo_marco_length [OF assms(1)] show ?thesis
    by (simp add: pos_de_def)
qed

lemma liberar_pedidos_marco: "liberar_pedidos s = Inr s' \<Longrightarrow> mismo_marco s s'"
  by (auto simp: liberar_pedidos_def mismo_marco_def split: sum.splits prod.splits)

lemma devuelto_marco: "mismo_marco s (devuelto s i m)"
  by (simp add: mismo_marco_def devuelto_def map_update map_update_mismo)

lemma asignado_marco: "mismo_marco s (asignado s i m ah ed rt)"
  by (simp add: mismo_marco_def asignado_def map_update map_update_mismo)

lemma asignar_robot_casos:
  assumes "i < length (lista_robots s)" "asignar_robot s i = Inr s'"
  shows "s' = s \<or> (\<exists>m. s' = devuelto s i m) \<or> (\<exists>m ah ed rt. s' = asignado s i m ah ed rt)"
  using assms(2) unfolding asignar_robot_eq [OF assms(1)]
  by (fastforce split: sum.splits option.splits)

lemma asignar_robot_marco:
  assumes "i < length (lista_robots s)" "asignar_robot s i = Inr s'"
  shows "mismo_marco s s'"
  using asignar_robot_casos [OF assms] by (auto simp: mismo_marco_refl devuelto_marco asignado_marco)

lemma asignar_bucle_marco:
  "asignar_bucle s is = Inr s' \<Longrightarrow> \<forall>i \<in> set is. i < length (lista_robots s) \<Longrightarrow> mismo_marco s s'"
proof (induction "is" arbitrary: s)
  case Nil
  then show ?case by (simp add: mismo_marco_refl)
next
  case (Cons i "is")
  show ?case
  proof (cases "pendientes s = []")
    case True
    with Cons.prems show ?thesis by (simp add: mismo_marco_refl)
  next
    case False
    with Cons.prems obtain s1 where a: "asignar_robot s i = Inr s1" "asignar_bucle s1 is = Inr s'"
      by (auto split: sum.splits)
    from Cons.prems(2) have i: "i < length (lista_robots s)" by simp
    note m1 = asignar_robot_marco [OF i a(1)]
    from Cons.prems(2) mismo_marco_length [OF m1]
    have "\<forall>k \<in> set is. k < length (lista_robots s1)" by simp
    from m1 Cons.IH [OF a(2) this] show ?thesis
      by (rule mismo_marco_trans)
  qed
qed

lemma asignar_pedidos_marco: "asignar_pedidos s = Inr s' \<Longrightarrow> mismo_marco s s'"
proof -
  assume a: "asignar_pedidos s = Inr s'"
  let ?in = "filter (\<lambda>i. estado (lista_robots s ! i) = INACTIVO) [0 ..< length (lista_robots s)]"
  show ?thesis
  proof (cases "?in = [] \<or> pendientes s = []")
    case True
    with a have "s' = s" by (auto simp: asignar_pedidos_def Let_def)
    then show ?thesis by (simp add: mismo_marco_refl)
  next
    case False
    with a have "asignar_bucle s ?in = Inr s'" by (auto simp: asignar_pedidos_def Let_def)
    then show ?thesis by (rule asignar_bucle_marco) simp
  qed
qed

lemma poner_robot_mismo: "poner_robot s i (lista_robots s ! i) = s"
  by (simp add: poner_robot_def)

lemma planear_forma:
  assumes "planear_siguiente_tramo_si_llego s i = Inr s'"
  shows "\<exists>peds r'. s' = poner_robot (s\<lparr>pedidos := peds\<rparr>) i r' \<and>
           pos r' = pos (lista_robots s ! i) \<and> robot_id r' = robot_id (lista_robots s ! i) \<and>
           (ruta r' = ruta (lista_robots s ! i) \<or> ruta r' = [] \<or>
            (\<exists>t. a_estrella (grid s) (pos (lista_robots s ! i)) t = Some (Some (ruta r')))) \<and>
           (r' = lista_robots s ! i \<or> estado r' \<noteq> INACTIVO \<or>
            (ruta r' = [] \<and> r_pedido_id r' = None \<and> r_anaquel_home r' = None \<and>
             r_estacion_dock r' = None))"
proof -
  let ?r = "lista_robots s ! i"
  have igual: ?thesis if "s' = s"
  proof -
    have "s' = poner_robot (s\<lparr>pedidos := pedidos s\<rparr>) i ?r" using that by (simp add: poner_robot_def)
    then show ?thesis by blast
  qed
  have estado_solo: ?thesis if "s' = poner_robot s i (?r\<lparr>estado := e\<rparr>)" "e \<noteq> INACTIVO" for e
  proof -
    have "s' = poner_robot (s\<lparr>pedidos := pedidos s\<rparr>) i (?r\<lparr>estado := e\<rparr>)" using that by simp
    with that(2) show ?thesis by fastforce
  qed
  have nueva: ?thesis
    if "s' = poner_robot s i (?r\<lparr>estado := e, ruta := rt, idx_ruta := 0\<rparr>)"
      "a_estrella (grid s) (pos ?r) t = Some (Some rt)" "e \<noteq> INACTIVO" for e rt t
  proof -
    have "s' = poner_robot (s\<lparr>pedidos := pedidos s\<rparr>) i (?r\<lparr>estado := e, ruta := rt, idx_ruta := 0\<rparr>)"
      using that by simp
    with that(2,3) show ?thesis by fastforce
  qed
  show ?thesis
  proof (cases "ruta ?r = [] \<or> idx_ruta ?r \<noteq> length (ruta ?r) - 1")
    case True
    with assms have "s' = s" by (auto simp: planear_siguiente_tramo_si_llego_def Let_def)
    then show ?thesis by (rule igual)
  next
    case False
    show ?thesis
    proof (cases "estado ?r")
      case INACTIVO
      with assms False have "s' = s" by (auto simp: planear_siguiente_tramo_si_llego_def Let_def)
      then show ?thesis by (rule igual)
    next
      case A_RECOGER
      show ?thesis
      proof (cases "r_estacion_dock ?r")
        case None
        with assms False A_RECOGER show ?thesis
          by (simp add: planear_siguiente_tramo_si_llego_def Let_def)
      next
        case (Some dock)
        show ?thesis
        proof (cases "a_estrella (grid s) (pos ?r) dock")
          case None
          with assms False A_RECOGER Some show ?thesis
            by (simp add: planear_siguiente_tramo_si_llego_def Let_def)
        next
          case r: (Some ro)
          show ?thesis
          proof (cases ro)
            case None
            with assms False A_RECOGER Some r
            have "s' = poner_robot s i (?r\<lparr>estado := A_RECOGER\<rparr>)"
              by (simp add: planear_siguiente_tramo_si_llego_def Let_def)
            then show ?thesis by (rule estado_solo) simp
          next
            case (Some rt)
            with assms False A_RECOGER \<open>r_estacion_dock ?r = Some dock\<close> r
            have "s' = poner_robot s i (?r\<lparr>estado := A_ESTACION, ruta := rt, idx_ruta := 0\<rparr>)"
              by (simp add: planear_siguiente_tramo_si_llego_def Let_def)
            moreover from r Some have "a_estrella (grid s) (pos ?r) dock = Some (Some rt)" by simp
            ultimately show ?thesis by (rule nueva) simp
          qed
        qed
      qed
    next
      case A_ESTACION
      let ?pk = "case r_anaquel_home ?r of None \<Rightarrow> None
                 | Some ah \<Rightarrow> elegir_objetivo_adyacente (grid s) ah"
      show ?thesis
      proof (cases ?pk)
        case None
        with assms False A_ESTACION
        have "s' = poner_robot s i (?r\<lparr>estado := A_ESTACION\<rparr>)"
          by (simp add: planear_siguiente_tramo_si_llego_def Let_def)
        then show ?thesis by (rule estado_solo) simp
      next
        case (Some pickup)
        show ?thesis
        proof (cases "a_estrella (grid s) (pos ?r) pickup")
          case None
          with assms False A_ESTACION Some show ?thesis
            by (simp add: planear_siguiente_tramo_si_llego_def Let_def)
        next
          case r: (Some ro)
          show ?thesis
          proof (cases ro)
            case None
            with assms False A_ESTACION Some r
            have "s' = poner_robot s i (?r\<lparr>estado := A_ESTACION\<rparr>)"
              by (simp add: planear_siguiente_tramo_si_llego_def Let_def)
            then show ?thesis by (rule estado_solo) simp
          next
            case rt: (Some rt)
            with assms False A_ESTACION Some r
            have "s' = poner_robot s i (?r\<lparr>estado := RETORNO, ruta := rt, idx_ruta := 0\<rparr>)"
              by (simp add: planear_siguiente_tramo_si_llego_def Let_def)
            moreover from r rt have "a_estrella (grid s) (pos ?r) pickup = Some (Some rt)" by simp
            ultimately show ?thesis by (rule nueva) simp
          qed
        qed
      qed
    next
      case RETORNO
      let ?peds = "case r_pedido_id ?r of None \<Rightarrow> pedidos s
                   | Some pid \<Rightarrow> completar_pedido (pedidos s) pid (tick s)"
      let ?r' = "?r\<lparr>estado := INACTIVO, r_pedido_id := None, r_anaquel_home := None,
                      r_estacion_dock := None, ruta := [], idx_ruta := 0\<rparr>"
      from assms False RETORNO
      have "s' = poner_robot (s\<lparr>pedidos := ?peds\<rparr>) i ?r'"
        by (simp add: planear_siguiente_tramo_si_llego_def Let_def)
      moreover have "pos ?r' = pos ?r" "robot_id ?r' = robot_id ?r" "ruta ?r' = []"
        "r_pedido_id ?r' = None" "r_anaquel_home ?r' = None" "r_estacion_dock ?r' = None" by simp_all
      ultimately show ?thesis by blast
    qed
  qed
qed

lemma planear_marco:
  assumes "planear_siguiente_tramo_si_llego s i = Inr s'"
  shows "mismo_marco s s'"
proof -
  from planear_forma [OF assms] obtain peds r' where
    f: "s' = poner_robot (s\<lparr>pedidos := peds\<rparr>) i r'" "pos r' = pos (lista_robots s ! i)"
       "robot_id r' = robot_id (lista_robots s ! i)" by blast
  show ?thesis
    unfolding f(1) by (simp add: mismo_marco_def poner_robot_def map_update f(2,3) map_update_mismo)
qed

lemma poner_ocupado_marco:
  "mismo_marco s (poner_robot s i ((lista_robots s ! i)\<lparr>ticks_ocupado := n\<rparr>))"
  by (simp add: mismo_marco_def poner_robot_def map_update map_update_mismo)

lemma proponer_marco: "proponer s pr is = Inr (s', pr') \<Longrightarrow> mismo_marco s s'"
proof (induction "is" arbitrary: s pr)
  case Nil
  then show ?case by (simp add: mismo_marco_refl)
next
  case (Cons i "is")
  let ?s1 = "if estado (lista_robots s ! i) \<noteq> INACTIVO
             then poner_robot s i ((lista_robots s ! i)\<lparr>ticks_ocupado := ticks_ocupado (lista_robots s ! i) + 1\<rparr>)
             else s"
  from Cons.prems obtain s2 where
    p: "planear_siguiente_tramo_si_llego ?s1 i = Inr s2"
    and r: "proponer s2 (pr(robot_id (lista_robots s2 ! i) \<mapsto> propuesta_de (lista_robots s2 ! i))) is = Inr (s', pr')"
    by (auto simp: Let_def split: sum.splits)
  have "mismo_marco s ?s1"
    by (simp add: mismo_marco_refl poner_ocupado_marco)
  from mismo_marco_trans [OF this planear_marco [OF p]] Cons.IH [OF r] show ?case
    by (rule mismo_marco_trans)
qed

text \<open>The shape of one tick.\<close>

lemma paso_fases:
  assumes "paso s = Inr s'"
  obtains s2 s3 pr s4 m where
    "mismo_marco s s2" "proponer s2 Map.empty [0 ..< length (lista_robots s2)] = Inr (s3, pr)"
    "resolver s3 pr False [0 ..< length (lista_robots s3)] = Inr (s4, m)"
    "s' = s4\<lparr>conteo_deadlock :=
               (if \<not> m \<and> list_ex (\<lambda>r. estado r \<noteq> INACTIVO) (lista_robots s4)
                then conteo_deadlock s4 + 1 else conteo_deadlock s4),
             tick := tick s4 + 1\<rparr>"
proof -
  from assms obtain s1 s2 s3 pr s4 m where
    a: "liberar_pedidos s = Inr s1" "asignar_pedidos s1 = Inr s2"
    "proponer s2 Map.empty [0 ..< length (lista_robots s2)] = Inr (s3, pr)"
    "resolver s3 pr False [0 ..< length (lista_robots s3)] = Inr (s4, m)"
    "s' = s4\<lparr>conteo_deadlock :=
               (if \<not> m \<and> list_ex (\<lambda>r. estado r \<noteq> INACTIVO) (lista_robots s4)
                then conteo_deadlock s4 + 1 else conteo_deadlock s4),
             tick := tick s4 + 1\<rparr>"
    unfolding paso_def by (auto split: sum.splits prod.splits)
  from mismo_marco_trans [OF liberar_pedidos_marco [OF a(1)] asignar_pedidos_marco [OF a(2)]] a(3,4,5)
  show ?thesis by (rule that)
qed

lemma paso_posiciones:
  assumes "paso s = Inr s'"
  shows "length (lista_robots s') = length (lista_robots s)"
    and "tick s' = tick s + 1"
    and "conteo_deadlock s' =
           (if (\<forall>i < length (lista_robots s). pos_de s' i = pos_de s i) \<and>
               (\<exists>r \<in> set (lista_robots s'). estado r \<noteq> INACTIVO)
            then conteo_deadlock s + 1 else conteo_deadlock s)"
    and "i < length (lista_robots s) \<Longrightarrow> j < length (lista_robots s) \<Longrightarrow> i \<noteq> j \<Longrightarrow>
           pos_de s i \<noteq> pos_de s j \<Longrightarrow> \<not> (pos_de s' i = pos_de s j \<and> pos_de s' j = pos_de s i)"
proof -
  from assms obtain s2 s3 pr s4 m where
    a: "mismo_marco s s2" "proponer s2 Map.empty [0 ..< length (lista_robots s2)] = Inr (s3, pr)"
    "resolver s3 pr False [0 ..< length (lista_robots s3)] = Inr (s4, m)"
    "s' = s4\<lparr>conteo_deadlock :=
               (if \<not> m \<and> list_ex (\<lambda>r. estado r \<noteq> INACTIVO) (lista_robots s4)
                then conteo_deadlock s4 + 1 else conteo_deadlock s4),
             tick := tick s4 + 1\<rparr>"
    by (rule paso_fases)
  have m3: "mismo_marco s s3" using a(1) proponer_marco [OF a(2)] by (rule mismo_marco_trans)
  note l3 = mismo_marco_length [OF m3]
  note g = resolver_marco [OF a(3)]
  have p3: "pos_de s3 k = pos_de s k" if "k < length (lista_robots s)" for k
    using m3 that by (rule mismo_marco_pos)
  have p4: "pos_de s' k = pos_de s4 k" for k by (simp add: a(4) pos_de_def)
  show "length (lista_robots s') = length (lista_robots s)"
    using g l3 by (simp add: a(4))
  show "tick s' = tick s + 1"
    using g m3 by (simp add: a(4) mismo_marco_def)
  have d: "distinct [0 ..< length (lista_robots s3)]"
    "\<forall>k \<in> set [0 ..< length (lista_robots s3)]. k < length (lista_robots s3)" by simp_all
  from resolver_movio [OF a(3) d]
  have "m \<longleftrightarrow> (\<exists>k < length (lista_robots s). pos_de s' k \<noteq> pos_de s k)"
    by (auto simp: p3 p4 l3)
  moreover have "conteo_deadlock s4 = conteo_deadlock s"
    using g m3 by (simp add: mismo_marco_def)
  ultimately show "conteo_deadlock s' =
           (if (\<forall>i < length (lista_robots s). pos_de s' i = pos_de s i) \<and>
               (\<exists>r \<in> set (lista_robots s'). estado r \<noteq> INACTIVO)
            then conteo_deadlock s + 1 else conteo_deadlock s)"
    by (auto simp: a(4) list_ex_iff)
  assume ij: "i < length (lista_robots s)" "j < length (lista_robots s)" "i \<noteq> j"
    "pos_de s i \<noteq> pos_de s j"
  then have "i \<in> set [0 ..< length (lista_robots s3)]" "j \<in> set [0 ..< length (lista_robots s3)]"
    by (simp_all add: l3)
  from resolver_sin_intercambio [OF a(3) d this ij(3)] ij(4)
  show "\<not> (pos_de s' i = pos_de s j \<and> pos_de s' j = pos_de s i)"
    by (simp add: p3 [OF ij(1)] p3 [OF ij(2)] p4)
qed

subsection \<open>The resolve loop never raises\<close>

lemma resolver_uno_ids:
  assumes "resolver_uno s pr m i = Inr (s1, m1)"
  shows "robot_id (lista_robots s1 ! k) = robot_id (lista_robots s ! k)"
proof (cases "i < length (lista_robots s)")
  case True
  with assms show ?thesis
    by (cases "k = i")
      (auto simp: resolver_uno_def Let_def poner_robot_def split: option.splits if_splits)
next
  case False
  with assms show ?thesis
    by (auto simp: resolver_uno_def Let_def poner_robot_def list_update_beyond
        split: option.splits if_splits)
qed

lemma resolver_uno_retorna:
  "pr (robot_id (lista_robots s ! i)) \<noteq> None \<Longrightarrow> \<exists>s1 m1. resolver_uno s pr m i = Inr (s1, m1)"
  by (auto simp: resolver_uno_def Let_def)

lemma resolver_retorna:
  "\<forall>i \<in> set is. pr (robot_id (lista_robots s ! i)) \<noteq> None \<Longrightarrow> \<exists>s' m'. resolver s pr m is = Inr (s', m')"
proof (induction "is" arbitrary: s m)
  case Nil
  then show ?case by simp
next
  case (Cons i "is")
  from Cons.prems resolver_uno_retorna [of pr s i m]
  obtain s1 m1 where u: "resolver_uno s pr m i = Inr (s1, m1)" by auto
  from Cons.prems have "\<forall>k \<in> set is. pr (robot_id (lista_robots s1 ! k)) \<noteq> None"
    by (simp add: resolver_uno_ids [OF u])
  from Cons.IH [OF this, of m1] u show ?case
    by (simp add: resolver_Cons)
qed

lemma proponer_cubre:
  assumes "proponer s pr is = Inr (s', pr')"
    and "\<forall>i \<in> set is. i < length (lista_robots s)"
  shows "(\<forall>k. pr k \<noteq> None \<longrightarrow> pr' k \<noteq> None) \<and>
         (\<forall>i \<in> set is. pr' (robot_id (lista_robots s' ! i)) \<noteq> None)"
  using assms
proof (induction "is" arbitrary: s pr)
  case Nil
  then show ?case by simp
next
  case (Cons i "is")
  let ?s1 = "if estado (lista_robots s ! i) \<noteq> INACTIVO
             then poner_robot s i ((lista_robots s ! i)\<lparr>ticks_ocupado := ticks_ocupado (lista_robots s ! i) + 1\<rparr>)
             else s"
  let ?pr = "\<lambda>s2. pr(robot_id (lista_robots s2 ! i) \<mapsto> propuesta_de (lista_robots s2 ! i))"
  from Cons.prems(1) obtain s2 where
    p: "planear_siguiente_tramo_si_llego ?s1 i = Inr s2"
    and r: "proponer s2 (?pr s2) is = Inr (s', pr')"
    by (auto simp: Let_def split: sum.splits)
  have "mismo_marco s ?s1"
    by (simp add: mismo_marco_refl poner_ocupado_marco)
  from mismo_marco_trans [OF this planear_marco [OF p]] have m2: "mismo_marco s s2" .
  have l2: "length (lista_robots s2) = length (lista_robots s)"
    using m2 by (rule mismo_marco_length)
  from Cons.prems(2) have "\<forall>k \<in> set is. k < length (lista_robots s2)"
    by (simp add: l2)
  from Cons.IH [OF r this]
  have a: "\<forall>k. (?pr s2) k \<noteq> None \<longrightarrow> pr' k \<noteq> None"
    and b: "\<forall>k \<in> set is. pr' (robot_id (lista_robots s' ! k)) \<noteq> None" by blast+
  have il: "i < length (lista_robots s2)" using Cons.prems(2) by (simp add: l2)
  have "map robot_id (lista_robots s') = map robot_id (lista_robots s2)"
    using proponer_marco [OF r] by (simp add: mismo_marco_def)
  then have "map robot_id (lista_robots s') ! i = map robot_id (lista_robots s2) ! i" by simp
  with il mismo_marco_length [OF proponer_marco [OF r]]
  have "robot_id (lista_robots s' ! i) = robot_id (lista_robots s2 ! i)" by simp
  with a have "pr' (robot_id (lista_robots s' ! i)) \<noteq> None" by simp
  moreover from a have "\<forall>k. pr k \<noteq> None \<longrightarrow> pr' k \<noteq> None" by simp
  ultimately show ?case using b by simp
qed

text \<open>The tick up to the resolve loop: release, assignment, planning and proposals.\<close>

definition antes_de_resolver :: "sim \<Rightarrow> fallo + sim \<times> (nat \<rightharpoonup> celda)" where
  "antes_de_resolver s =
     (case liberar_pedidos s of
        Inl e \<Rightarrow> Inl e
      | Inr s1 \<Rightarrow>
          (case asignar_pedidos s1 of
             Inl e \<Rightarrow> Inl e
           | Inr s2 \<Rightarrow> proponer s2 Map.empty [0 ..< length (lista_robots s2)]))"

lemma paso_antes:
  "paso s =
     (case antes_de_resolver s of
        Inl e \<Rightarrow> Inl e
      | Inr (s3, propuestas) \<Rightarrow>
          (case resolver s3 propuestas False [0 ..< length (lista_robots s3)] of
             Inl e \<Rightarrow> Inl e
           | Inr (s4, movio_alguien) \<Rightarrow>
               Inr (s4\<lparr>conteo_deadlock :=
                         (if \<not> movio_alguien \<and> list_ex (\<lambda>r. estado r \<noteq> INACTIVO) (lista_robots s4)
                          then conteo_deadlock s4 + 1 else conteo_deadlock s4),
                       tick := tick s4 + 1\<rparr>)))"
  by (simp add: paso_def antes_de_resolver_def split: sum.splits)

lemma antes_resolver_retorna:
  assumes "antes_de_resolver s = Inr (s3, pr)"
  shows "\<exists>s4 m. resolver s3 pr False [0 ..< length (lista_robots s3)] = Inr (s4, m)"
proof -
  from assms obtain s2 where
    p: "proponer s2 Map.empty [0 ..< length (lista_robots s2)] = Inr (s3, pr)"
    by (auto simp: antes_de_resolver_def split: sum.splits)
  have "\<forall>i \<in> set [0 ..< length (lista_robots s2)]. i < length (lista_robots s2)" by simp
  from proponer_cubre [OF p this] mismo_marco_length [OF proponer_marco [OF p]]
  have "\<forall>i \<in> set [0 ..< length (lista_robots s3)]. pr (robot_id (lista_robots s3 ! i)) \<noteq> None"
    by simp
  then show ?thesis by (rule resolver_retorna)
qed

lemma paso_continua:
  "antes_de_resolver s = Inr x \<Longrightarrow> \<exists>s'. paso s = Inr s'"
  using antes_resolver_retorna [of s "fst x" "snd x"]
  by (cases x) (auto simp: paso_antes)

lemma paso_falla_iff: "paso s = Inl e \<longleftrightarrow> antes_de_resolver s = Inl e"
proof (cases "antes_de_resolver s")
  case (Inl a)
  then show ?thesis by (simp add: paso_antes)
next
  case (Inr x)
  from paso_continua [OF this] Inr show ?thesis by auto
qed

subsection \<open>The counter is never read\<close>

definition con_contador :: "nat \<Rightarrow> sim \<Rightarrow> sim" where
  "con_contador k s = s\<lparr>conteo_deadlock := k\<rparr>"

definition con_contador_res :: "nat \<Rightarrow> fallo + sim \<Rightarrow> fallo + sim" where
  "con_contador_res k r = (case r of Inl e \<Rightarrow> Inl e | Inr s \<Rightarrow> Inr (con_contador k s))"

lemma liberar_pedidos_contador:
  "liberar_pedidos (con_contador k s) = con_contador_res k (liberar_pedidos s)"
  by (simp add: liberar_pedidos_def con_contador_def con_contador_res_def split: sum.splits prod.splits)

lemma elegir_mejor_contador:
  "elegir_mejor (con_contador k s) rp ps mi md = elegir_mejor s rp ps mi md"
  by (induction ps arbitrary: mi md) (simp_all add: con_contador_def Let_def split: option.splits)

lemma asignar_robot_contador:
  "asignar_robot (con_contador k s) i = con_contador_res k (asignar_robot s i)"
  unfolding asignar_robot_def elegir_mejor_contador
  by (simp add: con_contador_def con_contador_res_def revertir_def Let_def
      split: sum.splits option.splits)

lemma asignar_bucle_contador:
  "asignar_bucle (con_contador k s) is = con_contador_res k (asignar_bucle s is)"
proof (induction "is" arbitrary: s)
  case Nil
  then show ?case by (simp add: con_contador_res_def)
next
  case (Cons i "is")
  show ?case
  proof (cases "asignar_robot s i")
    case (Inl e)
    then show ?thesis
      by (simp add: asignar_robot_contador) (simp add: con_contador_res_def con_contador_def)
  next
    case (Inr s1)
    then show ?thesis
      using Cons.IH [of s1]
      by (simp add: asignar_robot_contador) (simp add: con_contador_res_def con_contador_def)
  qed
qed

lemma asignar_pedidos_contador:
  "asignar_pedidos (con_contador k s) = con_contador_res k (asignar_pedidos s)"
proof -
  have "lista_robots (con_contador k s) = lista_robots s" "pendientes (con_contador k s) = pendientes s"
    by (simp_all add: con_contador_def)
  then show ?thesis
    unfolding asignar_pedidos_def Let_def
    by (simp add: asignar_bucle_contador) (simp add: con_contador_res_def)
qed

lemma poner_robot_contador:
  "poner_robot (con_contador k s) i r = con_contador k (poner_robot s i r)"
  by (simp add: poner_robot_def con_contador_def)

lemma planear_contador:
  "planear_siguiente_tramo_si_llego (con_contador k s) i =
     con_contador_res k (planear_siguiente_tramo_si_llego s i)"
  by (simp add: planear_siguiente_tramo_si_llego_def con_contador_def con_contador_res_def
      poner_robot_def Let_def split: estado.splits option.splits)

lemma proponer_contador:
  "proponer (con_contador k s) pr is =
     (case proponer s pr is of Inl e \<Rightarrow> Inl e | Inr (s', pr') \<Rightarrow> Inr (con_contador k s', pr'))"
proof (induction "is" arbitrary: s pr)
  case Nil
  then show ?case by simp
next
  case (Cons i "is")
  let ?s1 = "if estado (lista_robots s ! i) \<noteq> INACTIVO
             then poner_robot s i ((lista_robots s ! i)\<lparr>ticks_ocupado := ticks_ocupado (lista_robots s ! i) + 1\<rparr>)
             else s"
  have l: "lista_robots (con_contador k t) = lista_robots t" for t
    by (simp add: con_contador_def)
  have e: "proponer (con_contador k s) pr (i # is) =
             (case planear_siguiente_tramo_si_llego (con_contador k ?s1) i of
                Inl e \<Rightarrow> Inl e
              | Inr s2 \<Rightarrow>
                  proponer s2 (pr(robot_id (lista_robots s2 ! i) \<mapsto> propuesta_de (lista_robots s2 ! i))) is)"
    by (simp add: Let_def l poner_robot_contador)
  show ?case
  proof (cases "planear_siguiente_tramo_si_llego ?s1 i")
    case (Inl a)
    then show ?thesis
      unfolding e planear_contador by (simp add: con_contador_res_def Let_def)
  next
    case (Inr s2)
    then show ?thesis
      unfolding e planear_contador
      using Cons.IH [of s2 "pr(robot_id (lista_robots s2 ! i) \<mapsto> propuesta_de (lista_robots s2 ! i))"]
      by (simp add: con_contador_res_def Let_def l del: fun_upd_apply)
  qed
qed

lemma resolver_uno_contador:
  "resolver_uno (con_contador k s) pr m i =
     (case resolver_uno s pr m i of Inl e \<Rightarrow> Inl e | Inr (s', m') \<Rightarrow> Inr (con_contador k s', m'))"
  by (simp add: resolver_uno_def con_contador_def poner_robot_def Let_def split: option.splits)

lemma resolver_contador:
  "resolver (con_contador k s) pr m is =
     (case resolver s pr m is of Inl e \<Rightarrow> Inl e | Inr (s', m') \<Rightarrow> Inr (con_contador k s', m'))"
proof (induction "is" arbitrary: s m)
  case Nil
  then show ?case by simp
next
  case (Cons i "is")
  show ?case
  proof (cases "resolver_uno s pr m i")
    case (Inl a)
    then show ?thesis by (simp add: resolver_Cons resolver_uno_contador)
  next
    case (Inr x)
    then show ?thesis
      using Cons.IH [of "fst x" "snd x"]
      by (cases x) (simp add: resolver_Cons resolver_uno_contador)
  qed
qed

lemma antes_de_resolver_contador:
  "antes_de_resolver (con_contador k s) =
     (case antes_de_resolver s of Inl e \<Rightarrow> Inl e | Inr (s3, pr) \<Rightarrow> Inr (con_contador k s3, pr))"
proof -
  have l: "lista_robots (con_contador k t) = lista_robots t" for t
    by (simp add: con_contador_def)
  show ?thesis
    unfolding antes_de_resolver_def liberar_pedidos_contador
    by (cases "liberar_pedidos s"; cases "asignar_pedidos (projr (liberar_pedidos s))")
      (simp_all add: con_contador_res_def asignar_pedidos_contador proponer_contador l)
qed

lemma paso_contador:
  "paso (con_contador k s) =
     (case paso s of
        Inl e \<Rightarrow> Inl e
      | Inr s' \<Rightarrow> Inr (con_contador (k + (conteo_deadlock s' - conteo_deadlock s)) s'))"
proof (cases "antes_de_resolver s")
  case (Inl a)
  then show ?thesis by (simp add: paso_antes antes_de_resolver_contador)
next
  case (Inr x)
  obtain s3 pr where x: "x = (s3, pr)" by (cases x)
  from antes_resolver_retorna [of s s3 pr] Inr x obtain s4 m where
    r: "resolver s3 pr False [0 ..< length (lista_robots s3)] = Inr (s4, m)" by auto
  have c3: "conteo_deadlock s3 = conteo_deadlock s"
  proof -
    from Inr x obtain s1 s2 where
      "liberar_pedidos s = Inr s1" "asignar_pedidos s1 = Inr s2"
      "proponer s2 Map.empty [0 ..< length (lista_robots s2)] = Inr (s3, pr)"
      by (auto simp: antes_de_resolver_def split: sum.splits)
    from mismo_marco_trans [OF mismo_marco_trans [OF liberar_pedidos_marco [OF this(1)]
          asignar_pedidos_marco [OF this(2)]] proponer_marco [OF this(3)]]
    show ?thesis by (simp add: mismo_marco_def)
  qed
  have c4: "conteo_deadlock s4 = conteo_deadlock s"
    using resolver_marco [OF r] c3 by simp
  have l: "lista_robots (con_contador k t) = lista_robots t" for t
    by (simp add: con_contador_def)
  show ?thesis
    using Inr x r c4
    by (simp add: paso_antes antes_de_resolver_contador resolver_contador l)
      (simp add: con_contador_def)
qed

lemma run_contador:
  "run n (con_contador k s) =
     (case run n s of
        Inl e \<Rightarrow> Inl e
      | Inr s' \<Rightarrow> Inr (con_contador (k + (conteo_deadlock s' - conteo_deadlock s)) s')) \<and>
   (\<forall>s'. run n s = Inr s' \<longrightarrow> conteo_deadlock s \<le> conteo_deadlock s')"
proof (induction n arbitrary: s k)
  case 0
  then show ?case by simp
next
  case (Suc n)
  show ?case
  proof (cases "paso s")
    case (Inl a)
    then show ?thesis by (simp add: paso_contador)
  next
    case (Inr s1)
    from paso_posiciones(3) [OF Inr] have m: "conteo_deadlock s \<le> conteo_deadlock s1"
      by (simp split: if_splits)
    from Suc.IH [of "k + (conteo_deadlock s1 - conteo_deadlock s)" s1] m Inr show ?thesis
      by (auto simp: paso_contador split: sum.splits)
  qed
qed

lemma run_falla_contador: "run n (s\<lparr>conteo_deadlock := k\<rparr>) = Inl e \<longleftrightarrow> run n s = Inl e"
  using run_contador [of n k s] by (auto simp: con_contador_def split: sum.splits)

section \<open>Runs from construction\<close>

definition correr :: "nat \<Rightarrow> fallo + sim \<Rightarrow> fallo + sim" where
  "correr n r = (case r of Inl e \<Rightarrow> Inl e | Inr s \<Rightarrow> run n s)"

definition ver :: "(sim \<Rightarrow> 'a) \<Rightarrow> fallo + sim \<Rightarrow> 'a option" where
  "ver f r = (case r of Inl e \<Rightarrow> None | Inr s \<Rightarrow> Some (f s))"

definition posiciones :: "sim \<Rightarrow> celda list" where
  "posiciones s = map pos (lista_robots s)"

definition estados :: "sim \<Rightarrow> estado list" where
  "estados s = map estado (lista_robots s)"

lemma ver_Some: "ver f r = Some v \<Longrightarrow> \<exists>s. r = Inr s \<and> f s = v"
  by (cases r) (simp_all add: ver_def)

lemma correr_uno: "correr (Suc 0) (Inr s) = Inr s' \<longleftrightarrow> paso s = Inr s'"
  by (simp add: correr_def split: sum.splits)

lemma posiciones_nth: "i < length (lista_robots s) \<Longrightarrow> posiciones s ! i = pos_de s i"
  by (simp add: posiciones_def pos_de_def)

section \<open>Claim C1: vertex collisions\<close>

text \<open>
  A corridor \<open>FREE FREE FREE SHELF\<close>. Robot 0 spawns on \<open>(0, 0)\<close>, robot 1 on
  \<open>(1, 0)\<close>; the only order asks for the shelf, whose pickup cell is \<open>(2, 0)\<close>.
\<close>

definition pedido_c1 :: pedido where
  "pedido_c1 = \<lparr>pedido_id = 7, anaquel_id = 1, estacion_id = 1, tick_creacion = 0,
                tick_asignacion = None, tick_completado = None\<rparr>"

definition inicio_c1 :: "fallo + sim" where
  "inicio_c1 = crear [[0, 0, 0, 1]] [1 \<mapsto> (0, 0)] [1 \<mapsto> (3, 0)] 2 [(0, 0), (1, 0)] [pedido_c1] 42"

text \<open>
  Claim C1 fails on the code. In the first tick robot 0 is given the order and proposes
  \<open>(1, 0)\<close>, the cell of robot 1, which is idle and stays. Robot 0 is resolved first,
  when robot 1 has not yet booked \<open>(1, 0)\<close> for tick 1, so the move is allowed; robot 1
  then books the same cell over it. At tick 1 both robots are on \<open>(1, 0)\<close>.
\<close>

theorem C1_colision_vertice:
  "ver posiciones inicio_c1 = Some [(0, 0), (1, 0)] \<and>
   ver posiciones (correr 1 inicio_c1) = Some [(1, 0), (1, 0)] \<and>
   ver estados (correr 1 inicio_c1) = Some [A_RECOGER, INACTIVO] \<and>
   ver tick (correr 1 inicio_c1) = Some 1 \<and>
   ver colisiones_vertice (correr 1 inicio_c1) = Some 0"
  unfolding inicio_c1_def pedido_c1_def by code_simp

section \<open>Claim C2: swaps\<close>

text \<open>
  \<open>SHELF FREE FREE SHELF\<close>: robot 0 on \<open>(1, 0)\<close> picks up where it stands and must
  deliver on \<open>(2, 0)\<close>; robot 1 on \<open>(2, 0)\<close> picks up where it stands and must deliver
  on \<open>(1, 0)\<close>. In the first tick each proposes the other's cell.
\<close>

definition pedidos_c2 :: "pedido list" where
  "pedidos_c2 =
     [\<lparr>pedido_id = 1, anaquel_id = 1, estacion_id = 1, tick_creacion = 0,
       tick_asignacion = None, tick_completado = None\<rparr>,
      \<lparr>pedido_id = 2, anaquel_id = 2, estacion_id = 2, tick_creacion = 0,
       tick_asignacion = None, tick_completado = None\<rparr>]"

definition inicio_c2 :: "fallo + sim" where
  "inicio_c2 = crear [[1, 0, 0, 1]] [1 \<mapsto> (2, 0), 2 \<mapsto> (1, 0)] [1 \<mapsto> (0, 0), 2 \<mapsto> (3, 0)]
                 2 [(1, 0), (2, 0)] pedidos_c2 0"

text \<open>
  Claim C2. In every tick that completes, no two robots standing on different cells
  exchange them: the one resolved first books the directed edge of its move for the
  arrival tick, and the other finds the opposite edge booked and waits. (Adjacent cells
  are different cells; the statement does not need adjacency.)
\<close>

theorem C2_sin_intercambio:
  "paso s = Inr s' \<Longrightarrow> i < length (lista_robots s) \<Longrightarrow> j < length (lista_robots s) \<Longrightarrow> i \<noteq> j \<Longrightarrow>
     pos_de s i \<noteq> pos_de s j \<Longrightarrow> \<not> (pos_de s' i = pos_de s j \<and> pos_de s' j = pos_de s i)"
  by (rule paso_posiciones(4))

theorem C2_sin_intercambio_testigo:
  "\<exists>s s'. inicio_c2 = Inr s \<and> paso s = Inr s' \<and>
      posiciones s = [(1, 0), (2, 0)] \<and> posiciones s' = [(2, 0), (2, 0)] \<and>
      eventos_alto s' = 1 \<and>
      \<not> (pos_de s' 0 = pos_de s 1 \<and> pos_de s' 1 = pos_de s 0)"
proof -
  have "ver posiciones inicio_c2 = Some [(1, 0), (2, 0)]"
    unfolding inicio_c2_def pedidos_c2_def by code_simp
  then obtain s where s: "inicio_c2 = Inr s" "posiciones s = [(1, 0), (2, 0)]"
    by (auto dest: ver_Some)
  have "ver (\<lambda>s. (posiciones s, eventos_alto s)) (correr 1 inicio_c2) = Some ([(2, 0), (2, 0)], 1)"
    unfolding inicio_c2_def pedidos_c2_def by code_simp
  then obtain s' where s': "paso s = Inr s'" "posiciones s' = [(2, 0), (2, 0)]" "eventos_alto s' = 1"
    unfolding s(1) by (auto dest!: ver_Some simp: correr_uno)
  have l: "length (lista_robots s) = 2"
    using s(2) by (metis length_map posiciones_def length_Cons list.size(3) numeral_2_eq_2)
  have "pos_de s 0 = (1, 0)" "pos_de s 1 = (2, 0)"
    using s(2) l posiciones_nth [of 0 s] posiciones_nth [of 1 s] by simp_all
  then have p: "pos_de s 0 \<noteq> pos_de s 1" by simp
  from C2_sin_intercambio [OF s'(1), of 0 1] l p
  have "\<not> (pos_de s' 0 = pos_de s 1 \<and> pos_de s' 1 = pos_de s 0)" by simp
  with s s' show ?thesis by blast
qed

section \<open>Claim C8: the deadlock counter\<close>

text \<open>
  \<open>FREE SHELF\<close>, one robot on \<open>(0, 0)\<close>, which is both the pickup cell of the shelf
  and the dock of the station: the robot is busy for three ticks and never moves.
\<close>

definition inicio_c8 :: "fallo + sim" where
  "inicio_c8 = crear [[0, 1]] [1 \<mapsto> (0, 0)] [1 \<mapsto> (1, 0)] 1 [(0, 0)] [pedido_c1] 0"

text \<open>
  Claim C8. A tick adds exactly one to the deadlock counter when no robot changed position
  in it (positions change only in the resolve loop) and some robot is not idle at its
  end, and leaves the counter alone otherwise. The simulation continues regardless: the
  resolve loop and the counting never raise, so a tick completes whenever release,
  assignment, planning and proposals do, and fails exactly when one of them fails, with
  its error; a completed tick advances the tick counter by one; and the counter is never
  read, so whether a run of any length completes does not depend on its value.
\<close>

theorem C8_conteo_deadlock:
  "(antes_de_resolver s = Inr x \<longrightarrow> (\<exists>s'. paso s = Inr s')) \<and>
   (paso s = Inl e \<longleftrightarrow> antes_de_resolver s = Inl e) \<and>
   (run n (s\<lparr>conteo_deadlock := k\<rparr>) = Inl e \<longleftrightarrow> run n s = Inl e) \<and>
   (paso s = Inr s' \<longrightarrow>
      length (lista_robots s') = length (lista_robots s) \<and>
      tick s' = tick s + 1 \<and>
      conteo_deadlock s' =
        (if (\<forall>i < length (lista_robots s). pos_de s' i = pos_de s i) \<and>
            (\<exists>r \<in> set (lista_robots s'). estado r \<noteq> INACTIVO)
         then conteo_deadlock s + 1 else conteo_deadlock s))"
  using paso_continua [of s x] paso_falla_iff [of s e]
    run_falla_contador [where n = n and s = s and k = k and e = e]
    paso_posiciones(1,2,3) [of s s']
  by blast

theorem C8_conteo_deadlock_testigo:
  "\<exists>s s' s3 x t. inicio_c8 = Inr s \<and> antes_de_resolver s = Inr x \<and> paso s = Inr s' \<and>
      posiciones s = [(0, 0)] \<and> posiciones s' = [(0, 0)] \<and> estados s' = [A_ESTACION] \<and>
      conteo_deadlock s = 0 \<and> conteo_deadlock s' = 1 \<and> tick s' = tick s + 1 \<and>
      run 3 s = Inr s3 \<and> conteo_deadlock s3 = 2 \<and> tick s3 = 3 \<and>
      run 3 (s\<lparr>conteo_deadlock := 5\<rparr>) = Inr t"
proof -
  have "ver (\<lambda>s. (posiciones s, conteo_deadlock s)) inicio_c8 = Some ([(0, 0)], 0)"
    unfolding inicio_c8_def pedido_c1_def by code_simp
  then obtain s where s: "inicio_c8 = Inr s" "posiciones s = [(0, 0)]" "conteo_deadlock s = 0"
    by (auto dest: ver_Some)
  have "ver (\<lambda>s. (posiciones s, estados s)) (correr 1 inicio_c8) = Some ([(0, 0)], [A_ESTACION])"
    unfolding inicio_c8_def pedido_c1_def by code_simp
  then obtain s' where s': "paso s = Inr s'" "posiciones s' = [(0, 0)]" "estados s' = [A_ESTACION]"
    unfolding s(1) by (auto dest!: ver_Some simp: correr_uno)
  have "ver (\<lambda>s. (conteo_deadlock s, tick s)) (correr 3 inicio_c8) = Some (2, 3)"
    unfolding inicio_c8_def pedido_c1_def by code_simp
  from ver_Some [OF this] obtain s3 where
    "correr 3 inicio_c8 = Inr s3" "(conteo_deadlock s3, tick s3) = (2, 3)" by blast
  then have s3: "run 3 s = Inr s3" "conteo_deadlock s3 = 2" "tick s3 = 3"
    by (simp_all add: s(1) correr_def)
  have l: "length (lista_robots s) = 1" "length (lista_robots s') = 1"
    using s(2) s'(2) by (metis length_map posiciones_def length_Cons list.size(3) One_nat_def)+
  have q: "\<forall>i < length (lista_robots s). pos_de s' i = pos_de s i"
    using l s(2) s'(2) posiciones_nth [of 0 s] posiciones_nth [of 0 s'] by simp
  have "estado (lista_robots s' ! 0) = A_ESTACION"
    using s'(3) l(2) by (metis estados_def nth_map nth_Cons_0 zero_less_one)
  then have e: "\<exists>r \<in> set (lista_robots s'). estado r \<noteq> INACTIVO"
    using l(2) by (metis estado.distinct(3) nth_mem zero_less_one)
  note c = C8_conteo_deadlock [where s = s and s' = s' and n = 3 and k = 5]
  from c q e s(3) s'(1)
  have n: "conteo_deadlock s' = 1" "tick s' = tick s + 1" by simp_all
  from c s'(1) have "\<forall>e. antes_de_resolver s \<noteq> Inl e" by auto
  then obtain x where x: "antes_de_resolver s = Inr x"
    by (cases "antes_de_resolver s") auto
  from c s3(1) have "\<forall>e. run 3 (s\<lparr>conteo_deadlock := 5\<rparr>) \<noteq> Inl e" by auto
  then obtain t where t: "run 3 (s\<lparr>conteo_deadlock := 5\<rparr>) = Inr t"
    by (cases "run 3 (s\<lparr>conteo_deadlock := 5\<rparr>)") auto
  from s s' s3 n x t show ?thesis by blast
qed

subsection \<open>The pickup cell and the scan of the queue\<close>

lemma elegir_objetivo_adyacente_libre:
  "elegir_objetivo_adyacente g c = find (libre g) (celdas_adyacentes c)"
  unfolding elegir_objetivo_adyacente_def libre_def transitable_def ..

lemma elegir_objetivo_adyacente_Some:
  "elegir_objetivo_adyacente g c = Some p \<longleftrightarrow>
     (\<exists>k < length (celdas_adyacentes c). celdas_adyacentes c ! k = p \<and> libre g p \<and>
        (\<forall>j < k. \<not> libre g (celdas_adyacentes c ! j)))"
  unfolding elegir_objetivo_adyacente_libre find_Some_iff by blast

lemma elegir_objetivo_adyacente_None:
  "elegir_objetivo_adyacente g c = None \<longleftrightarrow> (\<forall>p \<in> set (celdas_adyacentes c). \<not> libre g p)"
  unfolding elegir_objetivo_adyacente_libre find_None_iff by blast

definition distancia :: "celda \<Rightarrow> celda \<Rightarrow> int" where
  "distancia a b = \<bar>fst a - fst b\<bar> + \<bar>snd a - snd b\<bar>"

text \<open>The pickup cell of the order at index \<open>pi\<close>, when its shelf is known and has one.\<close>

definition pickup_de :: "sim \<Rightarrow> nat \<Rightarrow> celda option" where
  "pickup_de s pi =
     (case anaquel_home s (anaquel_id (pedidos s ! pi)) of
        None \<Rightarrow> None
      | Some anaquel \<Rightarrow> elegir_objetivo_adyacente (grid s) anaquel)"

lemma elegir_mejor_Cons:
  "elegir_mejor s rp (a # ps) mi md = Inr r \<Longrightarrow>
     a < length (pedidos s) \<and> anaquel_home s (anaquel_id (pedidos s ! a)) \<noteq> None \<and>
     (case pickup_de s a of
        None \<Rightarrow> elegir_mejor s rp ps mi md = Inr r
      | Some pk \<Rightarrow>
          if distancia rp pk < md then elegir_mejor s rp ps (Some a) (distancia rp pk) = Inr r
          else elegir_mejor s rp ps mi md = Inr r)"
  by (auto simp: pickup_de_def distancia_def Let_def split: if_splits option.splits)

lemma elegir_mejor_escaneados:
  "elegir_mejor s rp ps mi md = Inr r \<Longrightarrow>
     \<forall>a \<in> set ps. a < length (pedidos s) \<and> anaquel_home s (anaquel_id (pedidos s ! a)) \<noteq> None"
proof (induction ps arbitrary: mi md)
  case Nil
  then show ?case by simp
next
  case (Cons a ps)
  from elegir_mejor_Cons [OF Cons.prems] Cons.IH show ?case
    by (auto split: option.splits if_splits)
qed

text \<open>
  Either no scanned order has a pickup cell nearer than the bound and the best so far
  stands, or the result is the first scanned order of least distance, below the bound.
\<close>

lemma elegir_mejor_resultado:
  "elegir_mejor s rp ps mi md = Inr r \<Longrightarrow>
     (r = mi \<and> (\<forall>a \<in> set ps. \<forall>pk. pickup_de s a = Some pk \<longrightarrow> md \<le> distancia rp pk)) \<or>
     (\<exists>xs m ys pk. ps = xs @ m # ys \<and> r = Some m \<and> pickup_de s m = Some pk \<and> distancia rp pk < md \<and>
        (\<forall>a \<in> set xs. \<forall>pk'. pickup_de s a = Some pk' \<longrightarrow> distancia rp pk < distancia rp pk') \<and>
        (\<forall>a \<in> set ys. \<forall>pk'. pickup_de s a = Some pk' \<longrightarrow> distancia rp pk \<le> distancia rp pk'))"
proof (induction ps arbitrary: mi md)
  case Nil
  then show ?case by simp
next
  case (Cons a ps)
  note c = elegir_mejor_Cons [OF Cons.prems]
  let ?A = "\<lambda>mi md. r = mi \<and> (\<forall>a \<in> set ps. \<forall>pk. pickup_de s a = Some pk \<longrightarrow> md \<le> distancia rp pk)"
  let ?B = "\<lambda>md. \<exists>xs m ys pk. ps = xs @ m # ys \<and> r = Some m \<and> pickup_de s m = Some pk \<and> distancia rp pk < md \<and>
        (\<forall>a \<in> set xs. \<forall>pk'. pickup_de s a = Some pk' \<longrightarrow> distancia rp pk < distancia rp pk') \<and>
        (\<forall>a \<in> set ys. \<forall>pk'. pickup_de s a = Some pk' \<longrightarrow> distancia rp pk \<le> distancia rp pk')"
  show ?case
  proof (cases "pickup_de s a")
    case None
    with c have "elegir_mejor s rp ps mi md = Inr r" by simp
    from Cons.IH [OF this] have "?A mi md \<or> ?B md" .
    then show ?thesis
    proof
      assume "?A mi md"
      with None show ?thesis by auto
    next
      assume "?B md"
      then obtain xs m ys pk where b: "ps = xs @ m # ys" "r = Some m" "pickup_de s m = Some pk"
        "distancia rp pk < md"
        "\<forall>a \<in> set xs. \<forall>pk'. pickup_de s a = Some pk' \<longrightarrow> distancia rp pk < distancia rp pk'"
        "\<forall>a \<in> set ys. \<forall>pk'. pickup_de s a = Some pk' \<longrightarrow> distancia rp pk \<le> distancia rp pk'"
        by blast
      have "a # ps = (a # xs) @ m # ys" using b(1) by simp
      moreover have "\<forall>x \<in> set (a # xs). \<forall>pk'. pickup_de s x = Some pk' \<longrightarrow> distancia rp pk < distancia rp pk'"
        using b(5) None by auto
      ultimately show ?thesis using b(2,3,4,6) by blast
    qed
  next
    case (Some pka)
    show ?thesis
    proof (cases "distancia rp pka < md")
      case True
      with c Some have "elegir_mejor s rp ps (Some a) (distancia rp pka) = Inr r" by simp
      from Cons.IH [OF this] have "?A (Some a) (distancia rp pka) \<or> ?B (distancia rp pka)" .
      then show ?thesis
      proof
        assume h: "?A (Some a) (distancia rp pka)"
        have "a # ps = [] @ a # ps" by simp
        moreover have "\<forall>x \<in> set []. \<forall>pk'. pickup_de s x = Some pk' \<longrightarrow> distancia rp pka < distancia rp pk'"
          by simp
        ultimately show ?thesis using h Some True by blast
      next
        assume "?B (distancia rp pka)"
        then obtain xs m ys pk where b: "ps = xs @ m # ys" "r = Some m" "pickup_de s m = Some pk"
          "distancia rp pk < distancia rp pka"
          "\<forall>a \<in> set xs. \<forall>pk'. pickup_de s a = Some pk' \<longrightarrow> distancia rp pk < distancia rp pk'"
          "\<forall>a \<in> set ys. \<forall>pk'. pickup_de s a = Some pk' \<longrightarrow> distancia rp pk \<le> distancia rp pk'"
          by blast
        have "a # ps = (a # xs) @ m # ys" using b(1) by simp
        moreover have "\<forall>x \<in> set (a # xs). \<forall>pk'. pickup_de s x = Some pk' \<longrightarrow> distancia rp pk < distancia rp pk'"
          using b(4,5) Some by auto
        moreover have "distancia rp pk < md" using b(4) True by simp
        ultimately show ?thesis using b(2,3,6) by blast
      qed
    next
      case False
      with c Some have "elegir_mejor s rp ps mi md = Inr r" by simp
      from Cons.IH [OF this] have "?A mi md \<or> ?B md" .
      then show ?thesis
      proof
        assume "?A mi md"
        with Some False show ?thesis by auto
      next
        assume "?B md"
        then obtain xs m ys pk where b: "ps = xs @ m # ys" "r = Some m" "pickup_de s m = Some pk"
          "distancia rp pk < md"
          "\<forall>a \<in> set xs. \<forall>pk'. pickup_de s a = Some pk' \<longrightarrow> distancia rp pk < distancia rp pk'"
          "\<forall>a \<in> set ys. \<forall>pk'. pickup_de s a = Some pk' \<longrightarrow> distancia rp pk \<le> distancia rp pk'"
          by blast
        have "a # ps = (a # xs) @ m # ys" using b(1) by simp
        moreover have "\<forall>x \<in> set (a # xs). \<forall>pk'. pickup_de s x = Some pk' \<longrightarrow> distancia rp pk < distancia rp pk'"
          using b(4,5) Some False by auto
        ultimately show ?thesis using b(2,3,4,6) by blast
      qed
    qed
  qed
qed

lemma cabeza_cola_take: "cabeza_cola s = take 50 (pendientes s)"
  by (simp add: cabeza_cola_def min_def)

subsection \<open>Outcomes of one assignment attempt\<close>

text \<open>The order the scan selects for robot \<open>i\<close>, if the scan ends without an exception.\<close>

definition elegido :: "sim \<Rightarrow> nat \<Rightarrow> nat option" where
  "elegido s i =
     (case elegir_mejor s (pos (lista_robots s ! i)) (cabeza_cola s) None (10 ^ 9) of
        Inl e \<Rightarrow> None
      | Inr r \<Rightarrow> r)"

text \<open>
  The selected order cannot be assigned: its shelf has no pickup neighbour, or the planner
  finds no route from the robot to the pickup cell.
\<close>

definition no_asignable :: "sim \<Rightarrow> nat \<Rightarrow> nat \<Rightarrow> bool" where
  "no_asignable s i m \<longleftrightarrow>
     (case anaquel_home s (anaquel_id (pedidos s ! m)) of
        None \<Rightarrow> False
      | Some ah \<Rightarrow>
          (case elegir_objetivo_adyacente (grid s) ah of
             None \<Rightarrow> True
           | Some pickup \<Rightarrow> a_estrella (grid s) (pos (lista_robots s ! i)) pickup = Some None))"

lemma asignar_robot_resultado:
  assumes "i < length (lista_robots s)" "asignar_robot s i = Inr s'"
  shows "(elegido s i = None \<and> s' = s) \<or>
         (\<exists>m. elegido s i = Some m \<and> m \<in> set (cabeza_cola s) \<and> m < length (pedidos s) \<and>
              no_asignable s i m \<and> s' = devuelto s i m) \<or>
         (\<exists>m ah ed pk rt. elegido s i = Some m \<and> m \<in> set (cabeza_cola s) \<and> m < length (pedidos s) \<and>
              \<not> no_asignable s i m \<and>
              a_estrella (grid s) (pos (lista_robots s ! i)) pk = Some (Some rt) \<and>
              s' = asignado s i m ah ed rt)"
proof (cases "elegir_mejor s (pos (lista_robots s ! i)) (cabeza_cola s) None (10 ^ 9)")
  case (Inl e)
  with assms(2) show ?thesis by (simp add: asignar_robot_eq [OF assms(1)])
next
  case (Inr r)
  show ?thesis
  proof (cases r)
    case None
    with Inr assms(2) show ?thesis by (simp add: asignar_robot_eq [OF assms(1)] elegido_def)
  next
    case (Some m)
    with Inr have e: "elegido s i = Some m" by (simp add: elegido_def)
    from Inr Some elegir_mejor_en_cola [of s _ "cabeza_cola s" None _ m]
    have m: "m \<in> set (cabeza_cola s)" "m < length (pedidos s)" by simp_all
    from assms(2) Inr Some obtain ah ed where
      h: "anaquel_home s (anaquel_id (pedidos s ! m)) = Some ah"
         "estacion_dock s (estacion_id (pedidos s ! m)) = Some ed"
      by (auto simp: asignar_robot_eq [OF assms(1)] split: option.splits)
    show ?thesis
    proof (cases "elegir_objetivo_adyacente (grid s) ah")
      case None
      with assms(2) Inr Some h have "s' = devuelto s i m"
        by (simp add: asignar_robot_eq [OF assms(1)])
      moreover have "no_asignable s i m" using h None by (simp add: no_asignable_def)
      ultimately show ?thesis using e m by blast
    next
      case pk: (Some pk)
      show ?thesis
      proof (cases "a_estrella (grid s) (pos (lista_robots s ! i)) pk")
        case None
        with assms(2) Inr Some h pk show ?thesis by (simp add: asignar_robot_eq [OF assms(1)])
      next
        case ro: (Some ro)
        show ?thesis
        proof (cases ro)
          case None
          with assms(2) Inr Some h pk ro have "s' = devuelto s i m"
            by (simp add: asignar_robot_eq [OF assms(1)])
          moreover have "no_asignable s i m" using h pk ro None by (simp add: no_asignable_def)
          ultimately show ?thesis using e m by blast
        next
          case rt: (Some rt)
          with assms(2) Inr Some h pk ro have "s' = asignado s i m ah ed rt"
            by (simp add: asignar_robot_eq [OF assms(1)])
          moreover have "\<not> no_asignable s i m" using h pk ro rt by (simp add: no_asignable_def)
          moreover have "a_estrella (grid s) (pos (lista_robots s ! i)) pk = Some (Some rt)"
            using ro rt by simp
          ultimately show ?thesis using e m by blast
        qed
      qed
    qed
  qed
qed

subsection \<open>Invariants of the robots\<close>

definition robot_limpio :: "robot \<Rightarrow> bool" where
  "robot_limpio r \<longleftrightarrow>
     (estado r = INACTIVO \<longrightarrow>
        ruta r = [] \<and> r_pedido_id r = None \<and> r_anaquel_home r = None \<and> r_estacion_dock r = None)"

definition inv_inactivos :: "sim \<Rightarrow> bool" where
  "inv_inactivos s \<longleftrightarrow> (\<forall>r \<in> set (lista_robots s). robot_limpio r)"

definition robot_transitable :: "grid \<Rightarrow> robot \<Rightarrow> bool" where
  "robot_transitable g r \<longleftrightarrow> libre g (pos r) \<and> (\<forall>c \<in> set (ruta r). libre g c)"

definition inv_transitable :: "sim \<Rightarrow> bool" where
  "inv_transitable s \<longleftrightarrow> (\<forall>r \<in> set (lista_robots s). robot_transitable (grid s) r)"

lemma todos_update:
  "\<forall>r \<in> set xs. P r \<Longrightarrow> P r' \<Longrightarrow> \<forall>r \<in> set (xs[i := r']). P r"
  using set_update_subset_insert [of xs i r'] by auto

lemma a_estrella_libres:
  assumes "a_estrella g a b = Some (Some rt)"
  shows "\<forall>c \<in> set rt. libre g c"
proof
  fix c assume "c \<in> set rt"
  moreover from a_estrella_ruta(1) [OF assms] have "camino g rt" by (simp add: une_def)
  ultimately show "libre g c" by (rule camino_libre [rotated])
qed

lemma inv_inactivos_poner:
  "inv_inactivos s \<Longrightarrow> robot_limpio r \<Longrightarrow> inv_inactivos (poner_robot (s\<lparr>pedidos := peds\<rparr>) i r)"
  using todos_update [of "lista_robots s" robot_limpio r i]
  by (simp add: inv_inactivos_def poner_robot_def)

lemma inv_transitable_poner:
  "inv_transitable s \<Longrightarrow> robot_transitable (grid s) r \<Longrightarrow>
     inv_transitable (poner_robot (s\<lparr>pedidos := peds\<rparr>) i r)"
  using todos_update [of "lista_robots s" "robot_transitable (grid s)" r i]
  by (simp add: inv_transitable_def poner_robot_def)

lemma inv_inactivos_pendientes [simp]: "inv_inactivos (s\<lparr>pendientes := p\<rparr>) = inv_inactivos s"
  by (simp add: inv_inactivos_def)

lemma inv_transitable_pendientes [simp]: "inv_transitable (s\<lparr>pendientes := p\<rparr>) = inv_transitable s"
  by (simp add: inv_transitable_def)

lemma devuelto_poner:
  "devuelto s i m =
     poner_robot (s\<lparr>pedidos := (pedidos s)[m := (pedidos s ! m)\<lparr>tick_asignacion := None\<rparr>]\<rparr>) i
       ((lista_robots s ! i)\<lparr>estado := INACTIVO, r_pedido_id := None, r_anaquel_home := None,
                              r_estacion_dock := None\<rparr>)
       \<lparr>pendientes := remove1 m (pendientes s) @ [m]\<rparr>"
  by (simp add: devuelto_def poner_robot_def)

lemma asignado_poner:
  "asignado s i m ah ed rt =
     poner_robot (s\<lparr>pedidos := (pedidos s)[m := (pedidos s ! m)\<lparr>tick_asignacion := Some (tick s)\<rparr>]\<rparr>) i
       ((lista_robots s ! i)\<lparr>r_pedido_id := Some (pedido_id (pedidos s ! m)), r_anaquel_home := Some ah,
                              r_estacion_dock := Some ed, estado := A_RECOGER, ruta := rt, idx_ruta := 0\<rparr>)
       \<lparr>pendientes := remove1 m (pendientes s)\<rparr>"
  by (simp add: asignado_def poner_robot_def)

lemma asignar_robot_inv_inactivos:
  assumes "inv_inactivos s" "i < length (lista_robots s)" "estado (lista_robots s ! i) = INACTIVO"
    "asignar_robot s i = Inr s'"
  shows "inv_inactivos s'"
proof -
  let ?r = "lista_robots s ! i"
  have l: "robot_limpio ?r" using assms(1,2) by (simp add: inv_inactivos_def)
  from asignar_robot_resultado [OF assms(2,4)] show ?thesis
  proof (elim disjE exE conjE)
    assume "s' = s"
    with assms(1) show ?thesis by simp
  next
    fix m assume s': "s' = devuelto s i m"
    have "robot_limpio (?r\<lparr>estado := INACTIVO, r_pedido_id := None, r_anaquel_home := None,
                              r_estacion_dock := None\<rparr>)"
      using l assms(3) by (simp add: robot_limpio_def)
    then show ?thesis
      unfolding s' devuelto_poner using assms(1) by (simp add: inv_inactivos_poner)
  next
    fix m ah ed pk rt assume s': "s' = asignado s i m ah ed rt"
    have "robot_limpio (?r\<lparr>r_pedido_id := Some (pedido_id (pedidos s ! m)), r_anaquel_home := Some ah,
                              r_estacion_dock := Some ed, estado := A_RECOGER, ruta := rt, idx_ruta := 0\<rparr>)"
      by (simp add: robot_limpio_def)
    then show ?thesis
      unfolding s' asignado_poner using assms(1) by (simp add: inv_inactivos_poner)
  qed
qed

lemma asignar_robot_inv_transitable:
  assumes "inv_transitable s" "i < length (lista_robots s)" "asignar_robot s i = Inr s'"
  shows "inv_transitable s'"
proof -
  let ?r = "lista_robots s ! i"
  have l: "robot_transitable (grid s) ?r" using assms(1,2) by (simp add: inv_transitable_def)
  from asignar_robot_resultado [OF assms(2,3)] show ?thesis
  proof (elim disjE exE conjE)
    assume "s' = s"
    with assms(1) show ?thesis by simp
  next
    fix m assume s': "s' = devuelto s i m"
    have "robot_transitable (grid s) (?r\<lparr>estado := INACTIVO, r_pedido_id := None, r_anaquel_home := None,
                              r_estacion_dock := None\<rparr>)"
      using l by (simp add: robot_transitable_def)
    then show ?thesis
      unfolding s' devuelto_poner using assms(1) by (simp add: inv_transitable_poner)
  next
    fix m ah ed pk rt
    assume s': "s' = asignado s i m ah ed rt"
      and a: "a_estrella (grid s) (pos (lista_robots s ! i)) pk = Some (Some rt)"
    have "robot_transitable (grid s) (?r\<lparr>r_pedido_id := Some (pedido_id (pedidos s ! m)), r_anaquel_home := Some ah,
                              r_estacion_dock := Some ed, estado := A_RECOGER, ruta := rt, idx_ruta := 0\<rparr>)"
      using l a_estrella_libres [OF a] by (simp add: robot_transitable_def)
    then show ?thesis
      unfolding s' asignado_poner using assms(1) by (simp add: inv_transitable_poner)
  qed
qed

subsection \<open>The invariants along a tick\<close>

lemma asignar_robot_otros:
  assumes "i < length (lista_robots s)" "asignar_robot s i = Inr s'"
  shows "length (lista_robots s') = length (lista_robots s)"
    and "k \<noteq> i \<Longrightarrow> lista_robots s' ! k = lista_robots s ! k"
  using asignar_robot_resultado [OF assms]
  by (auto simp: devuelto_def asignado_def)

lemma asignar_bucle_inv_inactivos:
  "asignar_bucle s is = Inr s' \<Longrightarrow> inv_inactivos s \<Longrightarrow> distinct is \<Longrightarrow>
     \<forall>i \<in> set is. i < length (lista_robots s) \<and> estado (lista_robots s ! i) = INACTIVO \<Longrightarrow>
     inv_inactivos s'"
proof (induction "is" arbitrary: s)
  case Nil
  then show ?case by simp
next
  case (Cons i "is")
  show ?case
  proof (cases "pendientes s = []")
    case True
    with Cons.prems show ?thesis by simp
  next
    case False
    with Cons.prems(1) obtain s1 where a: "asignar_robot s i = Inr s1" "asignar_bucle s1 is = Inr s'"
      by (auto split: sum.splits)
    from Cons.prems(4) have i: "i < length (lista_robots s)" "estado (lista_robots s ! i) = INACTIVO"
      by simp_all
    note o = asignar_robot_otros [OF i(1) a(1)]
    have "inv_inactivos s1" by (rule asignar_robot_inv_inactivos [OF Cons.prems(2) i a(1)])
    moreover have "distinct is" using Cons.prems(3) by simp
    moreover have "\<forall>k \<in> set is. k < length (lista_robots s1) \<and> estado (lista_robots s1 ! k) = INACTIVO"
    proof
      fix k assume k: "k \<in> set is"
      with Cons.prems(3) have "k \<noteq> i" by auto
      with k Cons.prems(4) o show "k < length (lista_robots s1) \<and> estado (lista_robots s1 ! k) = INACTIVO"
        by simp
    qed
    ultimately show ?thesis by (rule Cons.IH [OF a(2)])
  qed
qed

lemma asignar_bucle_inv_transitable:
  "asignar_bucle s is = Inr s' \<Longrightarrow> inv_transitable s \<Longrightarrow>
     \<forall>i \<in> set is. i < length (lista_robots s) \<Longrightarrow> inv_transitable s'"
proof (induction "is" arbitrary: s)
  case Nil
  then show ?case by simp
next
  case (Cons i "is")
  show ?case
  proof (cases "pendientes s = []")
    case True
    with Cons.prems show ?thesis by simp
  next
    case False
    with Cons.prems(1) obtain s1 where a: "asignar_robot s i = Inr s1" "asignar_bucle s1 is = Inr s'"
      by (auto split: sum.splits)
    from Cons.prems(3) have i: "i < length (lista_robots s)" by simp
    note o = asignar_robot_otros(1) [OF i a(1)]
    have "inv_transitable s1" by (rule asignar_robot_inv_transitable [OF Cons.prems(2) i a(1)])
    moreover have "\<forall>k \<in> set is. k < length (lista_robots s1)" using Cons.prems(3) o by simp
    ultimately show ?thesis by (rule Cons.IH [OF a(2)])
  qed
qed

lemma asignar_pedidos_inv:
  assumes "asignar_pedidos s = Inr s'"
  shows "inv_inactivos s \<Longrightarrow> inv_inactivos s'" and "inv_transitable s \<Longrightarrow> inv_transitable s'"
proof -
  let ?in = "filter (\<lambda>i. estado (lista_robots s ! i) = INACTIVO) [0 ..< length (lista_robots s)]"
  have c: "s' = s \<or> asignar_bucle s ?in = Inr s'"
    using assms by (auto simp: asignar_pedidos_def Let_def split: if_splits)
  have d: "distinct ?in"
    "\<forall>i \<in> set ?in. i < length (lista_robots s) \<and> estado (lista_robots s ! i) = INACTIVO"
    by simp_all
  show "inv_inactivos s'" if "inv_inactivos s"
    using c that asignar_bucle_inv_inactivos [OF _ that d] by blast
  show "inv_transitable s'" if "inv_transitable s"
    using c that asignar_bucle_inv_transitable [OF _ that] d(2) by blast
qed

lemma liberar_pedidos_robots:
  "liberar_pedidos s = Inr s' \<Longrightarrow> lista_robots s' = lista_robots s \<and> grid s' = grid s"
  by (auto simp: liberar_pedidos_def split: sum.splits prod.splits)

lemma liberar_pedidos_inv:
  assumes "liberar_pedidos s = Inr s'"
  shows "inv_inactivos s \<Longrightarrow> inv_inactivos s'" and "inv_transitable s \<Longrightarrow> inv_transitable s'"
  using liberar_pedidos_robots [OF assms] by (simp_all add: inv_inactivos_def inv_transitable_def)

lemma planear_inv:
  assumes "planear_siguiente_tramo_si_llego s i = Inr s'" "i < length (lista_robots s)"
  shows "inv_inactivos s \<Longrightarrow> inv_inactivos s'" and "inv_transitable s \<Longrightarrow> inv_transitable s'"
proof -
  let ?r = "lista_robots s ! i"
  from planear_forma [OF assms(1)] obtain peds r' where
    f: "s' = poner_robot (s\<lparr>pedidos := peds\<rparr>) i r'" "pos r' = pos ?r"
       "ruta r' = ruta ?r \<or> ruta r' = [] \<or>
          (\<exists>t. a_estrella (grid s) (pos ?r) t = Some (Some (ruta r')))"
       "r' = ?r \<or> estado r' \<noteq> INACTIVO \<or>
          (ruta r' = [] \<and> r_pedido_id r' = None \<and> r_anaquel_home r' = None \<and> r_estacion_dock r' = None)"
    by blast
  show "inv_inactivos s'" if i: "inv_inactivos s"
  proof -
    from i assms(2) have "robot_limpio ?r" by (simp add: inv_inactivos_def)
    with f(4) have "robot_limpio r'" by (auto simp: robot_limpio_def)
    with i show ?thesis unfolding f(1) by (rule inv_inactivos_poner)
  qed
  show "inv_transitable s'" if i: "inv_transitable s"
  proof -
    from i assms(2) have "robot_transitable (grid s) ?r" by (simp add: inv_transitable_def)
    with f(2,3) have "robot_transitable (grid s) r'"
      by (auto simp: robot_transitable_def dest: a_estrella_libres)
    with i show ?thesis unfolding f(1) by (rule inv_transitable_poner)
  qed
qed

lemma poner_ocupado_inv:
  assumes "i < length (lista_robots s)"
  shows "inv_inactivos s \<Longrightarrow> inv_inactivos (poner_robot s i ((lista_robots s ! i)\<lparr>ticks_ocupado := n\<rparr>))"
    and "inv_transitable s \<Longrightarrow> inv_transitable (poner_robot s i ((lista_robots s ! i)\<lparr>ticks_ocupado := n\<rparr>))"
proof -
  let ?r = "lista_robots s ! i"
  have e: "poner_robot s i r = poner_robot (s\<lparr>pedidos := pedidos s\<rparr>) i r" for r by simp
  show "inv_inactivos (poner_robot s i (?r\<lparr>ticks_ocupado := n\<rparr>))" if i: "inv_inactivos s"
  proof -
    from i assms have "robot_limpio ?r" by (simp add: inv_inactivos_def)
    then have "robot_limpio (?r\<lparr>ticks_ocupado := n\<rparr>)" by (simp add: robot_limpio_def)
    with i show ?thesis unfolding e [of "?r\<lparr>ticks_ocupado := n\<rparr>"] by (rule inv_inactivos_poner)
  qed
  show "inv_transitable (poner_robot s i (?r\<lparr>ticks_ocupado := n\<rparr>))" if i: "inv_transitable s"
  proof -
    from i assms have "robot_transitable (grid s) ?r" by (simp add: inv_transitable_def)
    then have "robot_transitable (grid s) (?r\<lparr>ticks_ocupado := n\<rparr>)" by (simp add: robot_transitable_def)
    with i show ?thesis unfolding e [of "?r\<lparr>ticks_ocupado := n\<rparr>"] by (rule inv_transitable_poner)
  qed
qed

lemma propuesta_de_libre: "robot_transitable g r \<Longrightarrow> libre g (propuesta_de r)"
  by (auto simp: robot_transitable_def propuesta_de_def)

definition propuestas_libres :: "grid \<Rightarrow> (nat \<rightharpoonup> celda) \<Rightarrow> bool" where
  "propuestas_libres g pr \<longleftrightarrow> (\<forall>k c. pr k = Some c \<longrightarrow> libre g c)"

lemma propuestas_libresD: "propuestas_libres g pr \<Longrightarrow> pr k = Some c \<Longrightarrow> libre g c"
  unfolding propuestas_libres_def by blast

lemma propuestas_libres_upd:
  assumes "propuestas_libres g pr" "libre g c"
  shows "propuestas_libres g (pr(k \<mapsto> c))"
  unfolding propuestas_libres_def
proof (intro allI impI)
  fix k' c' assume "(pr(k \<mapsto> c)) k' = Some c'"
  then have "c' = c \<or> pr k' = Some c'" by (cases "k' = k") simp_all
  with assms show "libre g c'" by (blast dest: propuestas_libresD)
qed

lemma proponer_inv_inactivos:
  "proponer s pr is = Inr (s', pr') \<Longrightarrow> inv_inactivos s \<Longrightarrow>
     \<forall>i \<in> set is. i < length (lista_robots s) \<Longrightarrow> inv_inactivos s'"
proof (induction "is" arbitrary: s pr)
  case Nil
  then show ?case by simp
next
  case (Cons i "is")
  let ?s1 = "if estado (lista_robots s ! i) \<noteq> INACTIVO
             then poner_robot s i ((lista_robots s ! i)\<lparr>ticks_ocupado := ticks_ocupado (lista_robots s ! i) + 1\<rparr>)
             else s"
  from Cons.prems(1) obtain s2 where
    p: "planear_siguiente_tramo_si_llego ?s1 i = Inr s2"
    and r: "proponer s2 (pr(robot_id (lista_robots s2 ! i) \<mapsto> propuesta_de (lista_robots s2 ! i))) is = Inr (s', pr')"
    by (auto simp: Let_def split: sum.splits)
  from Cons.prems(3) have i: "i < length (lista_robots s)" by simp
  have l1: "length (lista_robots ?s1) = length (lista_robots s)" by (simp add: poner_robot_def)
  have "inv_inactivos ?s1" using poner_ocupado_inv(1) [OF i Cons.prems(2)] Cons.prems(2) by simp
  with planear_inv(1) [OF p] i l1 have "inv_inactivos s2" by simp
  moreover have "\<forall>k \<in> set is. k < length (lista_robots s2)"
    using Cons.prems(3) l1 mismo_marco_length [OF planear_marco [OF p]] by simp
  ultimately show ?case by (rule Cons.IH [OF r])
qed

lemma proponer_inv_transitable:
  "proponer s pr is = Inr (s', pr') \<Longrightarrow> inv_transitable s \<Longrightarrow> propuestas_libres (grid s) pr \<Longrightarrow>
     \<forall>i \<in> set is. i < length (lista_robots s) \<Longrightarrow>
     inv_transitable s' \<and> propuestas_libres (grid s') pr'"
proof (induction "is" arbitrary: s pr)
  case Nil
  then show ?case by simp
next
  case (Cons i "is")
  let ?s1 = "if estado (lista_robots s ! i) \<noteq> INACTIVO
             then poner_robot s i ((lista_robots s ! i)\<lparr>ticks_ocupado := ticks_ocupado (lista_robots s ! i) + 1\<rparr>)
             else s"
  from Cons.prems(1) obtain s2 where
    p: "planear_siguiente_tramo_si_llego ?s1 i = Inr s2"
    and r: "proponer s2 (pr(robot_id (lista_robots s2 ! i) \<mapsto> propuesta_de (lista_robots s2 ! i))) is = Inr (s', pr')"
    by (auto simp: Let_def split: sum.splits)
  from Cons.prems(4) have i: "i < length (lista_robots s)" by simp
  have l1: "length (lista_robots ?s1) = length (lista_robots s)" by (simp add: poner_robot_def)
  have g1: "grid ?s1 = grid s" by (simp add: poner_robot_def)
  note m2 = planear_marco [OF p]
  have l2: "length (lista_robots s2) = length (lista_robots s)"
    using mismo_marco_length [OF m2] l1 by simp
  have g2: "grid s2 = grid s" using m2 g1 by (simp add: mismo_marco_def)
  have "inv_transitable ?s1" using poner_ocupado_inv(2) [OF i Cons.prems(2)] Cons.prems(2) by simp
  with planear_inv(2) [OF p] i l1 have i2: "inv_transitable s2" by simp
  then have "robot_transitable (grid s2) (lista_robots s2 ! i)"
    using i l2 by (simp add: inv_transitable_def)
  then have "libre (grid s2) (propuesta_de (lista_robots s2 ! i))" by (rule propuesta_de_libre)
  with Cons.prems(3) have
    "propuestas_libres (grid s2) (pr(robot_id (lista_robots s2 ! i) \<mapsto> propuesta_de (lista_robots s2 ! i)))"
    unfolding g2 by (rule propuestas_libres_upd)
  moreover have "\<forall>k \<in> set is. k < length (lista_robots s2)" using Cons.prems(4) l2 by simp
  ultimately show ?case using Cons.IH [OF r i2] by blast
qed

lemma resolver_uno_forma:
  assumes "resolver_uno s pr m i = Inr (s1, m1)"
  shows "\<exists>r'. lista_robots s1 = (lista_robots s)[i := r'] \<and> grid s1 = grid s \<and>
           estado r' = estado (lista_robots s ! i) \<and> ruta r' = ruta (lista_robots s ! i) \<and>
           r_pedido_id r' = r_pedido_id (lista_robots s ! i) \<and>
           r_anaquel_home r' = r_anaquel_home (lista_robots s ! i) \<and>
           r_estacion_dock r' = r_estacion_dock (lista_robots s ! i) \<and>
           (pos r' = pos (lista_robots s ! i) \<or> pr (robot_id (lista_robots s ! i)) = Some (pos r'))"
proof -
  let ?r = "lista_robots s ! i"
  from assms obtain sig where sig: "pr (robot_id ?r) = Some sig"
    by (auto simp: resolver_uno_def Let_def split: option.splits)
  consider (a) "lista_robots s1 = lista_robots s" "grid s1 = grid s"
    | (b) "lista_robots s1 = (lista_robots s)[i := ?r\<lparr>pos := sig, idx_ruta := idx_ruta ?r + 1,
                         celdas_movidas := celdas_movidas ?r + 1\<rparr>]" "grid s1 = grid s"
    | (c) "lista_robots s1 = (lista_robots s)[i := ?r\<lparr>ticks_espera := ticks_espera ?r + 1\<rparr>]" "grid s1 = grid s"
    using assms sig by (auto simp: resolver_uno_def Let_def poner_robot_def split: if_splits)
  then show ?thesis
  proof cases
    case a
    then have "lista_robots s1 = (lista_robots s)[i := ?r]" by simp
    with a(2) show ?thesis by blast
  next
    case b
    let ?r' = "?r\<lparr>pos := sig, idx_ruta := idx_ruta ?r + 1, celdas_movidas := celdas_movidas ?r + 1\<rparr>"
    have "pr (robot_id ?r) = Some (pos ?r')" using sig by simp
    moreover have "estado ?r' = estado ?r" "ruta ?r' = ruta ?r" "r_pedido_id ?r' = r_pedido_id ?r"
      "r_anaquel_home ?r' = r_anaquel_home ?r" "r_estacion_dock ?r' = r_estacion_dock ?r" by simp_all
    ultimately show ?thesis using b by blast
  next
    case c
    let ?r' = "?r\<lparr>ticks_espera := ticks_espera ?r + 1\<rparr>"
    have "pos ?r' = pos ?r" "estado ?r' = estado ?r" "ruta ?r' = ruta ?r" "r_pedido_id ?r' = r_pedido_id ?r"
      "r_anaquel_home ?r' = r_anaquel_home ?r" "r_estacion_dock ?r' = r_estacion_dock ?r" by simp_all
    then show ?thesis using c by blast
  qed
qed

lemma resolver_inv:
  "resolver s pr m is = Inr (s', m') \<Longrightarrow> \<forall>i \<in> set is. i < length (lista_robots s) \<Longrightarrow>
     (inv_inactivos s \<longrightarrow> inv_inactivos s') \<and>
     (inv_transitable s \<and> propuestas_libres (grid s) pr \<longrightarrow> inv_transitable s')"
proof (induction "is" arbitrary: s m)
  case Nil
  then show ?case by simp
next
  case (Cons i "is")
  from Cons.prems(1) obtain s1 m1 where u: "resolver_uno s pr m i = Inr (s1, m1)"
    and r: "resolver s1 pr m1 is = Inr (s', m')"
    by (auto simp: resolver_Cons split: sum.splits)
  let ?r = "lista_robots s ! i"
  from Cons.prems(2) have i: "i < length (lista_robots s)" by simp
  from resolver_uno_forma [OF u] obtain r' where
    f: "lista_robots s1 = (lista_robots s)[i := r']" "grid s1 = grid s"
       "estado r' = estado ?r" "ruta r' = ruta ?r" "r_pedido_id r' = r_pedido_id ?r"
       "r_anaquel_home r' = r_anaquel_home ?r" "r_estacion_dock r' = r_estacion_dock ?r"
       "pos r' = pos ?r \<or> pr (robot_id ?r) = Some (pos r')"
    by blast
  have b: "\<forall>k \<in> set is. k < length (lista_robots s1)" using Cons.prems(2) f(1) by simp
  have a1: "inv_inactivos s1" if h: "inv_inactivos s"
  proof -
    from h i have "robot_limpio ?r" by (simp add: inv_inactivos_def)
    then have "robot_limpio r'" using f(3-7) by (simp add: robot_limpio_def)
    with h show ?thesis
      using todos_update [of "lista_robots s" robot_limpio r' i] by (simp add: inv_inactivos_def f(1))
  qed
  have a2: "inv_transitable s1" if h: "inv_transitable s" "propuestas_libres (grid s) pr"
  proof -
    from h(1) i have t: "robot_transitable (grid s) ?r" by (simp add: inv_transitable_def)
    have "libre (grid s) (pos r')"
      using f(8) t h(2) by (auto simp: robot_transitable_def dest: propuestas_libresD)
    with t have "robot_transitable (grid s) r'" using f(4) by (simp add: robot_transitable_def)
    with h(1) show ?thesis
      using todos_update [of "lista_robots s" "robot_transitable (grid s)" r' i]
      by (simp add: inv_transitable_def f(1,2))
  qed
  from Cons.IH [OF r b] a1 a2 f(2) show ?case by auto
qed

lemma paso_inv:
  assumes "paso s = Inr s'"
  shows "inv_inactivos s \<Longrightarrow> inv_inactivos s'" and "inv_transitable s \<Longrightarrow> inv_transitable s'"
    and "grid s' = grid s"
proof -
  from assms obtain s1 s2 s3 pr s4 m where
    a: "liberar_pedidos s = Inr s1" "asignar_pedidos s1 = Inr s2"
    "proponer s2 Map.empty [0 ..< length (lista_robots s2)] = Inr (s3, pr)"
    "resolver s3 pr False [0 ..< length (lista_robots s3)] = Inr (s4, m)"
    "s' = s4\<lparr>conteo_deadlock :=
               (if \<not> m \<and> list_ex (\<lambda>r. estado r \<noteq> INACTIVO) (lista_robots s4)
                then conteo_deadlock s4 + 1 else conteo_deadlock s4),
             tick := tick s4 + 1\<rparr>"
    unfolding paso_def by (auto split: sum.splits prod.splits)
  have r: "\<forall>i \<in> set [0 ..< length (lista_robots s2)]. i < length (lista_robots s2)"
    "\<forall>i \<in> set [0 ..< length (lista_robots s3)]. i < length (lista_robots s3)" by simp_all
  have e: "inv_inactivos s' = inv_inactivos s4" "inv_transitable s' = inv_transitable s4"
    by (simp_all add: a(5) inv_inactivos_def inv_transitable_def)
  show "inv_inactivos s'" if "inv_inactivos s"
    using that liberar_pedidos_inv(1) [OF a(1)] asignar_pedidos_inv(1) [OF a(2)]
      proponer_inv_inactivos [OF a(3) _ r(1)] resolver_inv [OF a(4) r(2)] e by blast
  show "inv_transitable s'" if h: "inv_transitable s"
  proof -
    have "inv_transitable s2"
      using h liberar_pedidos_inv(2) [OF a(1)] asignar_pedidos_inv(2) [OF a(2)] by blast
    moreover have "propuestas_libres (grid s2) Map.empty" by (simp add: propuestas_libres_def)
    ultimately have "inv_transitable s3 \<and> propuestas_libres (grid s3) pr"
      using proponer_inv_transitable [OF a(3) _ _ r(1)] by blast
    with resolver_inv [OF a(4) r(2)] e show ?thesis by blast
  qed
  show "grid s' = grid s"
    using liberar_pedidos_marco [OF a(1)] asignar_pedidos_marco [OF a(2)] proponer_marco [OF a(3)]
      resolver_marco [OF a(4)] by (simp add: a(5) mismo_marco_def)
qed

lemma run_inv:
  "run n s = Inr s' \<Longrightarrow>
     (inv_inactivos s \<longrightarrow> inv_inactivos s') \<and> (inv_transitable s \<longrightarrow> inv_transitable s') \<and>
     grid s' = grid s"
proof (induction n arbitrary: s)
  case 0
  then show ?case by simp
next
  case (Suc n)
  from Suc.prems obtain s1 where a: "paso s = Inr s1" "run n s1 = Inr s'"
    by (auto split: sum.splits)
  from Suc.IH [OF a(2)] paso_inv [OF a(1)] show ?case by auto
qed

lemma crear_inv:
  assumes "crear g ed ah robots sp peds sd = Inr s"
  shows "inv_inactivos s"
    and "\<forall>i < nat robots. libre g (sp ! i) \<Longrightarrow> inv_transitable s"
  using crear_ok(1,3) [OF assms]
  by (auto simp: inv_inactivos_def inv_transitable_def robot_limpio_def robot_transitable_def
      robot_nuevo_def)

section \<open>Claim C4: robots stand on transitable cells\<close>

definition inicio_c4 :: "fallo + sim" where
  "inicio_c4 = crear [[0, 1]] Map.empty Map.empty 1 [(1, 0)] [] 0"

text \<open>
  Claim C4, as stated, has no condition on the spawn list. Construction checks only its
  length, so a robot spawned on a shelf cell stands on a non-transitable cell at tick 0,
  and stays there.
\<close>

theorem C4_contraejemplo:
  "ver posiciones inicio_c4 = Some [(1, 0)] \<and>
   ver grid inicio_c4 = Some [[0, 1]] \<and>
   \<not> transitable [[0, 1]] 1 0 \<and>
   ver posiciones (correr 2 inicio_c4) = Some [(1, 0)]"
  unfolding inicio_c4_def by code_simp

definition inicio_c4_libre :: "fallo + sim" where
  "inicio_c4_libre =
     crear [[0, 0, 0, 1]] [1 \<mapsto> (0, 0)] [1 \<mapsto> (3, 0)] 2 [(0, 0), (1, 0)]
       [\<lparr>pedido_id = 7, anaquel_id = 1, estacion_id = 1, tick_creacion = 0,
         tick_asignacion = None, tick_completado = None\<rparr>] 42"

text \<open>
  Claim C4, amended. When the spawn cells of the robots are in bounds and transitable,
  every robot stands on an in-bounds transitable cell of the grid at every tick of a run:
  a robot only ever moves to the next cell of a route the planner returned.
\<close>

theorem C4_posiciones_transitables:
  "\<forall>i < nat robots. libre g (sp ! i) \<Longrightarrow> crear g ed ah robots sp peds sd = Inr s0 \<Longrightarrow>
     run n s0 = Inr s \<Longrightarrow>
     grid s = g \<and>
     (\<forall>r \<in> set (lista_robots s).
        en_rango g (fst (pos r)) (snd (pos r)) \<and> transitable g (fst (pos r)) (snd (pos r)))"
proof -
  assume a: "\<forall>i < nat robots. libre g (sp ! i)" "crear g ed ah robots sp peds sd = Inr s0"
    "run n s0 = Inr s"
  have "inv_transitable s0" using a(1) by (rule crear_inv(2) [OF a(2)])
  with run_inv [OF a(3)] crear_ok(3) [OF a(2)] have "inv_transitable s" "grid s = g" by simp_all
  then show ?thesis
    by (auto simp: inv_transitable_def robot_transitable_def libre_def)
qed

theorem C4_posiciones_transitables_testigo:
  "\<exists>s0 s. inicio_c4_libre = Inr s0 \<and> run 2 s0 = Inr s \<and> posiciones s = [(2, 0), (1, 0)] \<and>
      list_all (\<lambda>r. en_rango [[0, 0, 0, 1]] (fst (pos r)) (snd (pos r)) \<and>
                     transitable [[0, 0, 0, 1]] (fst (pos r)) (snd (pos r))) (lista_robots s)"
proof -
  have "ver tick inicio_c4_libre = Some 0"
    unfolding inicio_c4_libre_def by code_simp
  then obtain s0 where s0: "inicio_c4_libre = Inr s0" by (auto dest: ver_Some)
  have "ver posiciones (correr 2 inicio_c4_libre) = Some [(2, 0), (1, 0)]"
    unfolding inicio_c4_libre_def by code_simp
  then obtain s where s: "run 2 s0 = Inr s" "posiciones s = [(2, 0), (1, 0)]"
    unfolding s0 by (auto dest!: ver_Some simp: correr_def)
  have l: "\<forall>i < nat 2. libre [[0, 0, 0, 1]] ([(0, 0), (1, 0)] ! i)"
  proof (intro allI impI)
    fix i :: nat assume "i < nat 2"
    then have "i = 0 \<or> i = 1" by auto
    moreover have "libre [[0, 0, 0, 1]] (0, 0)" "libre [[0, 0, 0, 1]] (1, 0)" by code_simp+
    ultimately show "libre [[0, 0, 0, 1]] ([(0, 0), (1, 0)] ! i)" by auto
  qed
  from C4_posiciones_transitables [OF l s0 [unfolded inicio_c4_libre_def] s(1)]
  have "list_all (\<lambda>r. en_rango [[0, 0, 0, 1]] (fst (pos r)) (snd (pos r)) \<and>
                     transitable [[0, 0, 0, 1]] (fst (pos r)) (snd (pos r))) (lista_robots s)"
    by (simp add: list_all_iff)
  with s0 s show ?thesis by blast
qed

section \<open>Claims C5 and C6: a failed assignment\<close>

definition liberado :: "fallo + sim \<Rightarrow> fallo + sim" where
  "liberado r = (case r of Inl e \<Rightarrow> Inl e | Inr s \<Rightarrow> liberar_pedidos s)"

definition intentado :: "nat \<Rightarrow> fallo + sim \<Rightarrow> fallo + sim" where
  "intentado i r = (case r of Inl e \<Rightarrow> Inl e | Inr s \<Rightarrow> asignar_robot s i)"

text \<open>
  \<open>FREE BLOCKED FREE SHELF\<close>: the robot on \<open>(0, 0)\<close> cannot reach the pickup cell
  \<open>(2, 0)\<close> of the shelf, which two orders ask for.
\<close>

definition pedidos_c5 :: "pedido list" where
  "pedidos_c5 =
     [\<lparr>pedido_id = 10, anaquel_id = 1, estacion_id = 1, tick_creacion = 0,
       tick_asignacion = None, tick_completado = None\<rparr>,
      \<lparr>pedido_id = 11, anaquel_id = 1, estacion_id = 1, tick_creacion = 0,
       tick_asignacion = None, tick_completado = None\<rparr>]"

definition inicio_c5 :: "fallo + sim" where
  "inicio_c5 = crear [[0, 3, 0, 1]] [1 \<mapsto> (0, 0)] [1 \<mapsto> (3, 0)] 1 [(0, 0)] pedidos_c5 0"

text \<open>
  Claim C5 fails on the code. After release the queue is \<open>[0, 1]\<close>; order 0 is selected
  for the robot, no route exists, and the order is put back with \<open>append\<close>: the queue is
  \<open>[1, 0]\<close>, also at the end of the tick.
\<close>

theorem C5_contraejemplo:
  "ver pendientes (liberado inicio_c5) = Some [0, 1] \<and>
   ver pendientes (intentado 0 (liberado inicio_c5)) = Some [1, 0] \<and>
   ver estados (intentado 0 (liberado inicio_c5)) = Some [INACTIVO] \<and>
   ver pendientes (correr 1 inicio_c5) = Some [1, 0]"
  unfolding inicio_c5_def pedidos_c5_def by code_simp

lemma filter_remove1_otros: "filter (\<lambda>x. x \<noteq> m) (remove1 m xs) = filter (\<lambda>x. x \<noteq> m) xs"
  by (induction xs) auto

lemma asignar_robot_no_asignable:
  assumes "i < length (lista_robots s)" "asignar_robot s i = Inr s'"
    "elegido s i = Some m" "no_asignable s i m"
  shows "s' = devuelto s i m" and "m < length (pedidos s)" and "m \<in> set (cabeza_cola s)"
  using asignar_robot_resultado [OF assms(1,2)] assms(3,4) by auto

text \<open>
  Claim C5, amended. When the order selected for a robot cannot be assigned (its shelf has
  no pickup neighbour, or there is no route to the pickup cell), the order is put back at
  the end of the pending queue; the other entries keep their relative order.
\<close>

theorem C5_devuelto_al_final:
  "i < length (lista_robots s) \<Longrightarrow> asignar_robot s i = Inr s' \<Longrightarrow> elegido s i = Some m \<Longrightarrow>
     no_asignable s i m \<Longrightarrow>
     pendientes s' = remove1 m (pendientes s) @ [m] \<and>
     filter (\<lambda>x. x \<noteq> m) (pendientes s') = filter (\<lambda>x. x \<noteq> m) (pendientes s)"
proof -
  assume a: "i < length (lista_robots s)" "asignar_robot s i = Inr s'" "elegido s i = Some m"
    "no_asignable s i m"
  have "pendientes s' = remove1 m (pendientes s) @ [m]"
    unfolding asignar_robot_no_asignable(1) [OF a] by (simp add: devuelto_def)
  then show ?thesis by (simp add: filter_remove1_otros)
qed

theorem C5_devuelto_al_final_testigo:
  "\<exists>s s'. liberado inicio_c5 = Inr s \<and> asignar_robot s 0 = Inr s' \<and> elegido s 0 = Some 0 \<and>
      no_asignable s 0 0 \<and> pendientes s = [0, 1] \<and> pendientes s' = [1, 0]"
proof -
  have "ver (\<lambda>s. (pendientes s, length (lista_robots s), elegido s 0, no_asignable s 0 0))
          (liberado inicio_c5) = Some ([0, 1], 1, Some 0, True)"
    unfolding inicio_c5_def pedidos_c5_def by code_simp
  then obtain s where s: "liberado inicio_c5 = Inr s" "pendientes s = [0, 1]"
    "length (lista_robots s) = 1" "elegido s 0 = Some 0" "no_asignable s 0 0"
    by (auto dest!: ver_Some)
  have "ver tick (intentado 0 (liberado inicio_c5)) = Some 0"
    unfolding inicio_c5_def pedidos_c5_def by code_simp
  then obtain s' where s': "asignar_robot s 0 = Inr s'"
    unfolding s(1) by (auto dest!: ver_Some simp: intentado_def)
  have "0 < length (lista_robots s)" using s(3) by simp
  from C5_devuelto_al_final [OF this s' s(4,5)] s(2)
  have "pendientes s' = [1, 0]" by simp
  with s s' show ?thesis by blast
qed

text \<open>
  The states in which an assignment attempt can take place during a run: the state after
  release at the start of a tick, and the state after an attempt for an idle robot.
\<close>

inductive en_asignacion :: "sim \<Rightarrow> bool" where
  tras_liberar:
    "crear g ed ah robots sp peds sd = Inr s0 \<Longrightarrow> run n s0 = Inr s1 \<Longrightarrow>
     liberar_pedidos s1 = Inr s \<Longrightarrow> en_asignacion s"
| tras_intento:
    "en_asignacion s \<Longrightarrow> i < length (lista_robots s) \<Longrightarrow> estado (lista_robots s ! i) = INACTIVO \<Longrightarrow>
     asignar_robot s i = Inr s' \<Longrightarrow> en_asignacion s'"

lemma en_asignacion_inv: "en_asignacion s \<Longrightarrow> inv_inactivos s"
proof (induction rule: en_asignacion.induct)
  case (tras_liberar g ed ah robots sp peds sd s0 n s1 s)
  from crear_inv(1) [OF tras_liberar(1)] run_inv [OF tras_liberar(2)]
    liberar_pedidos_inv(1) [OF tras_liberar(3)]
  show ?case by blast
next
  case (tras_intento s i s')
  then show ?case by (blast intro: asignar_robot_inv_inactivos)
qed

text \<open>
  Claim C6. In a run, when the attempt to give an idle robot an order fails (the scan finds
  no candidate, or the selected order has no pickup neighbour or no route), the robot is
  idle afterwards with no order id, no shelf home, no dock and no route, and the selected
  order, if any, is in the pending queue with its assignment tick unset.
\<close>

theorem C6_fallo_atomico:
  "en_asignacion s \<Longrightarrow> i < length (lista_robots s) \<Longrightarrow> estado (lista_robots s ! i) = INACTIVO \<Longrightarrow>
     asignar_robot s i = Inr s' \<Longrightarrow>
     elegido s i = None \<or> (\<exists>m. elegido s i = Some m \<and> no_asignable s i m) \<Longrightarrow>
     estado (lista_robots s' ! i) = INACTIVO \<and> r_pedido_id (lista_robots s' ! i) = None \<and>
     r_anaquel_home (lista_robots s' ! i) = None \<and> r_estacion_dock (lista_robots s' ! i) = None \<and>
     ruta (lista_robots s' ! i) = [] \<and>
     (\<forall>m. elegido s i = Some m \<longrightarrow>
        m \<in> set (pendientes s') \<and> m < length (pedidos s') \<and> tick_asignacion (pedidos s' ! m) = None)"
proof -
  assume a: "en_asignacion s" "i < length (lista_robots s)" "estado (lista_robots s ! i) = INACTIVO"
    "asignar_robot s i = Inr s'"
    "elegido s i = None \<or> (\<exists>m. elegido s i = Some m \<and> no_asignable s i m)"
  let ?r = "lista_robots s ! i"
  from en_asignacion_inv [OF a(1)] a(2) have "robot_limpio ?r" by (simp add: inv_inactivos_def)
  with a(3) have l: "ruta ?r = []" "r_pedido_id ?r = None" "r_anaquel_home ?r = None"
    "r_estacion_dock ?r = None" by (simp_all add: robot_limpio_def)
  from a(5) show ?thesis
  proof
    assume n: "elegido s i = None"
    with asignar_robot_resultado [OF a(2,4)] have "s' = s" by auto
    with a(3) l n show ?thesis by simp
  next
    assume "\<exists>m. elegido s i = Some m \<and> no_asignable s i m"
    then obtain m where m: "elegido s i = Some m" "no_asignable s i m" by blast
    note d = asignar_robot_no_asignable [OF a(2,4) m]
    show ?thesis
      unfolding d(1) using a(2) l m(1) d(2) by (simp add: devuelto_def)
  qed
qed

theorem C6_fallo_atomico_testigo:
  "\<exists>s s'. en_asignacion s \<and> liberado inicio_c5 = Inr s \<and> asignar_robot s 0 = Inr s' \<and>
      elegido s 0 = Some 0 \<and> no_asignable s 0 0 \<and>
      estado (lista_robots s' ! 0) = INACTIVO \<and> r_pedido_id (lista_robots s' ! 0) = None \<and>
      r_anaquel_home (lista_robots s' ! 0) = None \<and> r_estacion_dock (lista_robots s' ! 0) = None \<and>
      ruta (lista_robots s' ! 0) = [] \<and> 0 \<in> set (pendientes s') \<and>
      tick_asignacion (pedidos s' ! 0) = None"
proof -
  have "ver tick inicio_c5 = Some 0"
    unfolding inicio_c5_def pedidos_c5_def by code_simp
  then obtain s0 where s0: "inicio_c5 = Inr s0" by (auto dest: ver_Some)
  have "ver (\<lambda>s. (length (lista_robots s), estados s, elegido s 0, no_asignable s 0 0))
          (liberado inicio_c5) = Some (1, [INACTIVO], Some 0, True)"
    unfolding inicio_c5_def pedidos_c5_def by code_simp
  then obtain s where s: "liberado inicio_c5 = Inr s"
    "length (lista_robots s) = 1" "estados s = [INACTIVO]" "elegido s 0 = Some 0" "no_asignable s 0 0"
    by (auto dest!: ver_Some)
  have "ver tick (intentado 0 (liberado inicio_c5)) = Some 0"
    unfolding inicio_c5_def pedidos_c5_def by code_simp
  then obtain s' where s': "asignar_robot s 0 = Inr s'"
    unfolding s(1) by (auto dest!: ver_Some simp: intentado_def)
  have lib: "liberar_pedidos s0 = Inr s" using s(1) by (simp add: liberado_def s0)
  have "run 0 s0 = Inr s0" by simp
  from en_asignacion.tras_liberar [OF s0 [unfolded inicio_c5_def] this lib]
  have e: "en_asignacion s" .
  have i: "0 < length (lista_robots s)" using s(2) by simp
  have "estado (lista_robots s ! 0) = INACTIVO"
    using s(2,3) by (metis estados_def nth_map nth_Cons_0 zero_less_one)
  from C6_fallo_atomico [OF e i this s'] s(4,5)
  have "estado (lista_robots s' ! 0) = INACTIVO \<and> r_pedido_id (lista_robots s' ! 0) = None \<and>
     r_anaquel_home (lista_robots s' ! 0) = None \<and> r_estacion_dock (lista_robots s' ! 0) = None \<and>
     ruta (lista_robots s' ! 0) = [] \<and> 0 \<in> set (pendientes s') \<and>
     tick_asignacion (pedidos s' ! 0) = None"
    by blast
  with e s s' show ?thesis by blast
qed

section \<open>Claim C7: the choice of an order\<close>

text \<open>What the scan selects for each robot, and the pickup cells of the pending orders.\<close>

definition elecciones :: "sim \<Rightarrow> nat option list" where
  "elecciones s = map (elegido s) [0 ..< length (lista_robots s)]"

definition pickups :: "sim \<Rightarrow> celda option list" where
  "pickups s = map (pickup_de s) (pendientes s)"

text \<open>
  \<open>FREE SHELF\<close>, two orders for the shelf, whose pickup cell is \<open>(0, 0)\<close>; the spawn
  point of the robot is \<open>2 * 10**9\<close> columns away.
\<close>

definition pedidos_c7 :: "pedido list" where
  "pedidos_c7 =
     [\<lparr>pedido_id = 20, anaquel_id = 1, estacion_id = 1, tick_creacion = 0,
       tick_asignacion = None, tick_completado = None\<rparr>,
      \<lparr>pedido_id = 21, anaquel_id = 1, estacion_id = 1, tick_creacion = 0,
       tick_asignacion = None, tick_completado = None\<rparr>]"

definition inicio_c7 :: "fallo + sim" where
  "inicio_c7 = crear [[0, 1]] [1 \<mapsto> (0, 0)] [1 \<mapsto> (1, 0)] 1 [(2000000000, 0)] pedidos_c7 0"

text \<open>
  The same with the robot inside the grid: a corridor of \<open>n\<close> free cells closed by a
  shelf, the robot on the first cell.
\<close>

definition grid_largo :: "nat \<Rightarrow> grid" where
  "grid_largo n = [replicate n 0 @ [1]]"

definition inicio_largo :: "nat \<Rightarrow> fallo + sim" where
  "inicio_largo n = crear (grid_largo n) [1 \<mapsto> (0, 0)] [1 \<mapsto> (int n, 0)] 1 [(0, 0)] pedidos_c7 0"

lemma pickup_grid_largo:
  "0 < n \<Longrightarrow> elegir_objetivo_adyacente (grid_largo n) (int n, 0) = Some (int n - 1, 0)"
  by (simp add: elegir_objetivo_adyacente_def celdas_adyacentes_def en_rango_def ancho_def
      alto_def valor_def grid_largo_def LIBRE_def ESTACION_def nth_append)

lemma no_liberados_c7: "sort_key (\<lambda>i. tick_creacion (pedidos_c7 ! i)) [0 ..< length pedidos_c7] = [0, 1]"
  by (simp add: pedidos_c7_def upt_rec)

lemma liberado_largo:
  "\<exists>s. liberado (inicio_largo n) = Inr s \<and> pendientes s = [0, 1] \<and> pedidos s = pedidos_c7 \<and>
       grid s = grid_largo n \<and> anaquel_home s = [1 \<mapsto> (int n, 0)] \<and>
       map pos (lista_robots s) = [(0, 0)] \<and> map estado (lista_robots s) = [INACTIVO]"
  by (simp add: liberado_def inicio_largo_def crear_def no_liberados_c7 liberar_pedidos_def
      robot_nuevo_def Let_def)
    (simp add: pedidos_c7_def)

lemma elecciones_largo:
  assumes "10 ^ 9 < int n"
  shows "ver pendientes (liberado (inicio_largo n)) = Some [0, 1] \<and>
         ver pickups (liberado (inicio_largo n)) = Some [Some (int n - 1, 0), Some (int n - 1, 0)] \<and>
         ver elecciones (liberado (inicio_largo n)) = Some [None]"
proof -
  from liberado_largo [of n] obtain s where
    s: "liberado (inicio_largo n) = Inr s" "pendientes s = [0, 1]" "pedidos s = pedidos_c7"
      "grid s = grid_largo n" "anaquel_home s = [1 \<mapsto> (int n, 0)]"
      "map pos (lista_robots s) = [(0, 0)]" by (elim exE conjE)
  from assms have n: "0 < n" by (cases n) simp_all
  have l: "length (lista_robots s) = 1"
    using s(6) by (metis length_map length_Cons list.size(3) One_nat_def)
  have "map pos (lista_robots s) ! 0 = (0, 0)" by (simp add: s(6))
  with l have p: "pos (lista_robots s ! 0) = (0, 0)" by simp
  have k: "pickup_de s 0 = Some (int n - 1, 0)" "pickup_de s 1 = Some (int n - 1, 0)"
    by (simp_all add: pickup_de_def s pedidos_c7_def pickup_grid_largo [OF n])
  have "elegido s 0 = None"
    using assms
    by (simp add: elegido_def cabeza_cola_def s p pedidos_c7_def pickup_grid_largo [OF n])
  then have "elecciones s = [None]" by (simp add: elecciones_def l)
  with k s(1,2) show ?thesis by (simp add: ver_def pickups_def)
qed

text \<open>
  The scan in general, for the robot at index \<open>i\<close>: it reads the first 50 pending
  orders; an order it selects has a pickup cell nearer than \<open>10**9\<close>, strictly nearer
  than the pickup cell of every order scanned before it and at least as near as that of
  every order scanned after it; and when it selects nothing, no scanned order has a pickup
  cell nearer than \<open>10**9\<close>.
\<close>

lemma elegido_minimo:
  assumes "elegido s i = Some m"
  shows "\<exists>xs ys pk. take 50 (pendientes s) = xs @ m # ys \<and> pickup_de s m = Some pk \<and>
           distancia (pos (lista_robots s ! i)) pk < 10 ^ 9 \<and>
           (\<forall>a \<in> set xs. \<forall>pk'. pickup_de s a = Some pk' \<longrightarrow>
              distancia (pos (lista_robots s ! i)) pk < distancia (pos (lista_robots s ! i)) pk') \<and>
           (\<forall>a \<in> set ys. \<forall>pk'. pickup_de s a = Some pk' \<longrightarrow>
              distancia (pos (lista_robots s ! i)) pk \<le> distancia (pos (lista_robots s ! i)) pk')"
proof -
  from assms have "elegir_mejor s (pos (lista_robots s ! i)) (take 50 (pendientes s)) None (10 ^ 9) = Inr (Some m)"
    by (simp add: elegido_def cabeza_cola_take split: sum.splits)
  from elegir_mejor_resultado [OF this] show ?thesis by auto
qed

lemma elegido_ninguno:
  assumes "elegir_mejor s (pos (lista_robots s ! i)) (take 50 (pendientes s)) None (10 ^ 9) = Inr None"
  shows "\<forall>a \<in> set (take 50 (pendientes s)). \<forall>pk. pickup_de s a = Some pk \<longrightarrow>
           10 ^ 9 \<le> distancia (pos (lista_robots s ! i)) pk"
  using elegir_mejor_resultado [OF assms] by auto

text \<open>
  Claim C7 fails on the code. The scan starts from \<open>mejor_dist = 10**9\<close>, standing for
  "no candidate yet", and takes a candidate only when its distance is below the best so
  far; so a candidate whose pickup cell is at distance \<open>10**9\<close> or more is never chosen.
  In both runs the pending orders have a pickup cell, the nearest is the one of the first
  order, and the scan chooses nothing for the robot: first on the small grid with the
  robot spawned far outside, for a whole tick, then on a corridor of \<open>10**9 + 1\<close> free
  cells with the robot on its first cell, which is \<open>10**9\<close> cells from the pickup cell.
\<close>

theorem C7_centinela:
  "ver posiciones inicio_c7 = Some [(2000000000, 0)] \<and>
   ver pendientes (liberado inicio_c7) = Some [0, 1] \<and>
   ver pickups (liberado inicio_c7) = Some [Some (0, 0), Some (0, 0)] \<and>
   distancia (2000000000, 0) (0, 0) = 2000000000 \<and>
   ver elecciones (liberado inicio_c7) = Some [None] \<and>
   ver estados (correr 1 inicio_c7) = Some [INACTIVO] \<and>
   ver pendientes (correr 1 inicio_c7) = Some [0, 1] \<and>
   ver posiciones (inicio_largo 1000000001) = Some [(0, 0)] \<and>
   ver pendientes (liberado (inicio_largo 1000000001)) = Some [0, 1] \<and>
   ver pickups (liberado (inicio_largo 1000000001)) = Some [Some (1000000000, 0), Some (1000000000, 0)] \<and>
   distancia (0, 0) (1000000000, 0) = 1000000000 \<and>
   ver elecciones (liberado (inicio_largo 1000000001)) = Some [None]"
proof -
  have a: "ver posiciones inicio_c7 = Some [(2000000000, 0)] \<and>
   ver pendientes (liberado inicio_c7) = Some [0, 1] \<and>
   ver pickups (liberado inicio_c7) = Some [Some (0, 0), Some (0, 0)] \<and>
   distancia (2000000000, 0) (0, 0) = 2000000000 \<and>
   ver elecciones (liberado inicio_c7) = Some [None] \<and>
   ver estados (correr 1 inicio_c7) = Some [INACTIVO] \<and>
   ver pendientes (correr 1 inicio_c7) = Some [0, 1]"
    unfolding inicio_c7_def pedidos_c7_def by code_simp
  have "(10::int) ^ 9 < int 1000000001" by simp
  from elecciones_largo [OF this]
  have b: "ver pendientes (liberado (inicio_largo 1000000001)) = Some [0, 1] \<and>
   ver pickups (liberado (inicio_largo 1000000001)) = Some [Some (1000000000, 0), Some (1000000000, 0)] \<and>
   ver elecciones (liberado (inicio_largo 1000000001)) = Some [None]" by simp
  have c: "ver posiciones (inicio_largo 1000000001) = Some [(0, 0)]"
    by (simp add: ver_def inicio_largo_def crear_def posiciones_def robot_nuevo_def)
  have d: "distancia (0, 0) (1000000000, 0) = 1000000000" by (simp add: distancia_def)
  from a b c d show ?thesis by blast
qed

end
